theory Spec2Isabelle
  imports Complex_Main
begin

section \<open>The maze runner: data model\<close>

text \<open>
  The development embeds \<^verbatim>\<open>MazeRunnerPOLICE.cpp\<close>. The grid dimensions
  \<^verbatim>\<open>MAZE_WIDTH\<close> and \<^verbatim>\<open>MAZE_HEIGHT\<close> are compile-time constants of the
  program (both 20); every function below takes them as the parameters \<open>W\<close> and \<open>H\<close>, so
  that the results hold for every grid size and in particular for the program's.

  A C++ \<^verbatim>\<open>float\<close> is idealised as a \<^typ>\<open>real\<close>: rounding, infinities and NaN
  are not modelled. The conversion \<^verbatim>\<open>(int)f\<close> truncates towards zero.

  The hidden state of the C library's \<^verbatim>\<open>rand()\<close> is made explicit: a value of
  type \<open>rng\<close> is the infinite sequence of numbers that the coming calls will return, and a
  call returns the head and leaves the tail. The seed chooses the sequence.
\<close>

definition MAZE_WIDTH :: int where
  "MAZE_WIDTH = 20"

definition MAZE_HEIGHT :: int where
  "MAZE_HEIGHT = 20"

definition CELL_SIZE :: real where
  "CELL_SIZE = 1"

definition PLAYER_HEIGHT :: real where
  "PLAYER_HEIGHT = 1 / 2"

definition PLAYER_RADIUS :: real where
  "PLAYER_RADIUS = 15 / 100"

type_synonym rng = "nat \<Rightarrow> nat"

definition rand :: "rng \<Rightarrow> nat \<times> rng" where
  "rand r = (r 0, \<lambda>i. r (Suc i))"

text \<open>
  \<^verbatim>\<open>struct Cell\<close>: the fields \<^verbatim>\<open>x\<close>, \<^verbatim>\<open>y\<close> (here \<open>cx\<close>, \<open>cy\<close>),
  \<^verbatim>\<open>visited\<close> and the array \<^verbatim>\<open>walls[4]\<close> (Top, Right, Bottom, Left).
\<close>

record Cell =
  cx :: int
  cy :: int
  visited :: bool
  walls :: "bool list"

definition new_Cell :: "int \<Rightarrow> int \<Rightarrow> Cell" where
  "new_Cell a b = \<lparr>cx = a, cy = b, visited = False, walls = [True, True, True, True]\<rparr>"

text \<open>
  A \<^verbatim>\<open>Cell*\<close> into \<^verbatim>\<open>grid[MAZE_WIDTH][MAZE_HEIGHT]\<close> is the pair of indices of
  the cell it points to; \<^verbatim>\<open>nullptr\<close> is \<open>None\<close>. The array is a function from
  index pairs to cells, read by the program only at indices it has checked.
\<close>

type_synonym cellptr = "int \<times> int"

type_synonym cells = "cellptr \<Rightarrow> Cell"

record MazeGenerator =
  grid :: cells
  pathStack :: "cellptr list"

record Vector3 =
  vx :: real
  vy :: real
  vz :: real

datatype State = WANDERING | CHASING | FLEEING | PATROLLING

record NPC =
  position :: Vector3
  target :: Vector3
  speed :: real
  thinkTimer :: real
  color :: "nat \<times> nat \<times> nat \<times> nat"
  state :: State

section \<open>The maze generator\<close>

text \<open>
  The object that \<^verbatim>\<open>MazeGenerator maze;\<close> constructs: every cell built by
  \<^verbatim>\<open>Cell()\<close> with the default arguments, and an empty stack.
\<close>

definition new_MazeGenerator :: MazeGenerator where
  "new_MazeGenerator = \<lparr>grid = (\<lambda>p. new_Cell 0 0), pathStack = []\<rparr>"

text \<open>The index pairs of the array: \<open>[0, W) \<times> [0, H)\<close>.\<close>

definition in_grid :: "int \<Rightarrow> int \<Rightarrow> cellptr \<Rightarrow> bool" where
  "in_grid W H p = (fst p \<ge> 0 \<and> fst p < W \<and> snd p \<ge> 0 \<and> snd p < H)"

definition Initialize :: "int \<Rightarrow> int \<Rightarrow> MazeGenerator \<Rightarrow> MazeGenerator" where
  "Initialize W H m =
     m\<lparr>grid := fold (\<lambda>a g. fold (\<lambda>b g'. g'((a, b) := new_Cell a b)) [0..H - 1] g)
                  [0..W - 1] (grid m)\<rparr>"

definition GetCell :: "int \<Rightarrow> int \<Rightarrow> int \<Rightarrow> int \<Rightarrow> cellptr option" where
  "GetCell W H a b = (if a \<ge> 0 \<and> a < W \<and> b \<ge> 0 \<and> b < H then Some (a, b) else None)"

text \<open>
  \<^verbatim>\<open>GetUnvisitedNeighbour\<close> first fills the vector \<^verbatim>\<open>neighbours\<close> with its four
  tests, in the order \<open>y + 1\<close>, \<open>x + 1\<close>, \<open>y - 1\<close>, \<open>x - 1\<close> (\<open>unvisited_neighbours\<close>), and
  calls \<^verbatim>\<open>rand()\<close> only when the vector is not empty.
\<close>

definition unvisited_neighbours :: "int \<Rightarrow> int \<Rightarrow> cells \<Rightarrow> cellptr \<Rightarrow> cellptr list" where
  "unvisited_neighbours W H g current =
     (let a = cx (g current); b = cy (g current) in
        (if b + 1 < H \<and> \<not> visited (g (a, b + 1)) then [(a, b + 1)] else []) @
        (if a + 1 < W \<and> \<not> visited (g (a + 1, b)) then [(a + 1, b)] else []) @
        (if b - 1 \<ge> 0 \<and> \<not> visited (g (a, b - 1)) then [(a, b - 1)] else []) @
        (if a - 1 \<ge> 0 \<and> \<not> visited (g (a - 1, b)) then [(a - 1, b)] else []))"

definition GetUnvisitedNeighbour ::
  "int \<Rightarrow> int \<Rightarrow> cells \<Rightarrow> cellptr \<Rightarrow> rng \<Rightarrow> cellptr option \<times> rng" where
  "GetUnvisitedNeighbour W H g current r =
     (let neighbours = unvisited_neighbours W H g current in
        if neighbours \<noteq> [] then
          (let (v, r') = rand r in (Some (neighbours ! (v mod length neighbours)), r'))
        else (None, r))"

text \<open>The assignments \<^verbatim>\<open>p->walls[i] = v\<close> and \<^verbatim>\<open>p->visited = v\<close> through a pointer
  \<open>p\<close> into the grid. \<^verbatim>\<open>RemoveWall\<close> reads both differences before it writes, then runs
  its two \<^verbatim>\<open>if\<close>/\<^verbatim>\<open>else if\<close> statements one after the other.\<close>

definition set_wall :: "cells \<Rightarrow> cellptr \<Rightarrow> nat \<Rightarrow> bool \<Rightarrow> cells" where
  "set_wall g p i v = g(p := (g p)\<lparr>walls := (walls (g p))[i := v]\<rparr>)"

definition set_visited :: "cells \<Rightarrow> cellptr \<Rightarrow> bool \<Rightarrow> cells" where
  "set_visited g p v = g(p := (g p)\<lparr>visited := v\<rparr>)"

definition RemoveWall :: "cells \<Rightarrow> cellptr \<Rightarrow> cellptr \<Rightarrow> cells" where
  "RemoveWall g current nxt =
     (let dx = cx (g current) - cx (g nxt);
          dy = cy (g current) - cy (g nxt);
          g1 = (if dx = 1 then set_wall (set_wall g current 3 False) nxt 1 False
                else if dx = - 1 then set_wall (set_wall g current 1 False) nxt 3 False
                else g)
      in if dy = 1 then set_wall (set_wall g1 current 2 False) nxt 0 False
         else if dy = - 1 then set_wall (set_wall g1 current 0 False) nxt 2 False
         else g1)"

text \<open>
  The state of the loop of \<^verbatim>\<open>Generate\<close>: the generator, the local
  \<^verbatim>\<open>current\<close> and the random source. \<open>gen_step\<close> is one execution of the loop body,
  \<open>gen_loop\<close> the \<^verbatim>\<open>while (!pathStack.empty())\<close> around it; a run that never leaves
  the loop has the value \<open>None\<close>. The body runs only on a non-empty stack, so that
  \<^verbatim>\<open>top()\<close> and \<^verbatim>\<open>pop()\<close> are \<open>hd\<close> and \<open>tl\<close> of a non-empty list.
\<close>

type_synonym gen_state = "MazeGenerator \<times> cellptr \<times> rng"

definition gen_step :: "int \<Rightarrow> int \<Rightarrow> gen_state \<Rightarrow> gen_state" where
  "gen_step W H s =
     (case s of (m, current, r) \<Rightarrow>
        (case GetUnvisitedNeighbour W H (grid m) current r of
           (Some nxt, r') \<Rightarrow>
             (m\<lparr>grid := set_visited (RemoveWall (grid m) current nxt) nxt True,
                pathStack := current # pathStack m\<rparr>, nxt, r')
         | (None, r') \<Rightarrow>
             (m\<lparr>pathStack := tl (pathStack m)\<rparr>, hd (pathStack m), r')))"

partial_function (option) gen_loop :: "int \<Rightarrow> int \<Rightarrow> gen_state \<Rightarrow> gen_state option" where
  "gen_loop W H s =
     (if pathStack (fst s) = [] then Some s else gen_loop W H (gen_step W H s))"

definition gen_init :: "MazeGenerator \<Rightarrow> rng \<Rightarrow> gen_state" where
  "gen_init m r =
     (m\<lparr>grid := set_visited (grid m) (0, 0) True, pathStack := (0, 0) # pathStack m\<rparr>,
      (0, 0), r)"

definition Generate :: "int \<Rightarrow> int \<Rightarrow> MazeGenerator \<Rightarrow> rng \<Rightarrow> (MazeGenerator \<times> rng) option" where
  "Generate W H m r =
     (case gen_loop W H (gen_init m r) of
        None \<Rightarrow> None
      | Some (m', current, r') \<Rightarrow> Some (m', r'))"

definition GetRandomSpawnPosition :: "int \<Rightarrow> int \<Rightarrow> rng \<Rightarrow> Vector3 \<times> rng" where
  "GetRandomSpawnPosition W H r =
     (let (v1, r1) = rand r;
          a = int v1 mod W;
          (v2, r2) = rand r1;
          b = int v2 mod H
      in (\<lparr>vx = real_of_int a * CELL_SIZE, vy = PLAYER_HEIGHT / 2,
           vz = real_of_int b * CELL_SIZE\<rparr>, r2))"

section \<open>Collision\<close>

text \<open>The cast \<^verbatim>\<open>(int)\<close> of a float, and the cell index (\<^verbatim>\<open>cellX\<close>,
  \<^verbatim>\<open>cellY\<close>) that \<^verbatim>\<open>CheckWallCollision\<close> computes for a position.\<close>

definition to_int :: "real \<Rightarrow> int" where
  "to_int f = (if f \<ge> 0 then \<lfloor>f\<rfloor> else \<lceil>f\<rceil>)"

definition cell_of :: "Vector3 \<Rightarrow> int \<times> int" where
  "cell_of newPos =
     (to_int ((vx newPos + CELL_SIZE / 2) / CELL_SIZE),
      to_int ((vz newPos + CELL_SIZE / 2) / CELL_SIZE))"

definition CheckWallCollision :: "int \<Rightarrow> int \<Rightarrow> cells \<Rightarrow> Vector3 \<Rightarrow> bool" where
  "CheckWallCollision W H g newPos =
     (let cellX = fst (cell_of newPos);
          cellY = snd (cell_of newPos);
          localX = vx newPos - (real_of_int cellX * CELL_SIZE - CELL_SIZE / 2);
          localY = vz newPos - (real_of_int cellY * CELL_SIZE - CELL_SIZE / 2)
      in case GetCell W H cellX cellY of
           None \<Rightarrow> True
         | Some cell \<Rightarrow>
             if walls (g cell) ! 0 \<and> localY > CELL_SIZE - PLAYER_RADIUS then True
             else if walls (g cell) ! 1 \<and> localX > CELL_SIZE - PLAYER_RADIUS then True
             else if walls (g cell) ! 2 \<and> localY < PLAYER_RADIUS then True
             else if walls (g cell) ! 3 \<and> localX < PLAYER_RADIUS then True
             else False)"

section \<open>Vectors\<close>

text \<open>
  The functions of \<^verbatim>\<open>raymath.h\<close> that the program calls, over the reals.
  \<^verbatim>\<open>Vector3Normalize\<close> leaves a vector of length zero as it is.
\<close>

definition Vector3Add :: "Vector3 \<Rightarrow> Vector3 \<Rightarrow> Vector3" where
  "Vector3Add v1 v2 = \<lparr>vx = vx v1 + vx v2, vy = vy v1 + vy v2, vz = vz v1 + vz v2\<rparr>"

definition Vector3Subtract :: "Vector3 \<Rightarrow> Vector3 \<Rightarrow> Vector3" where
  "Vector3Subtract v1 v2 = \<lparr>vx = vx v1 - vx v2, vy = vy v1 - vy v2, vz = vz v1 - vz v2\<rparr>"

definition Vector3Scale :: "Vector3 \<Rightarrow> real \<Rightarrow> Vector3" where
  "Vector3Scale v k = \<lparr>vx = vx v * k, vy = vy v * k, vz = vz v * k\<rparr>"

definition Vector3Length :: "Vector3 \<Rightarrow> real" where
  "Vector3Length v = sqrt (vx v * vx v + vy v * vy v + vz v * vz v)"

definition Vector3Distance :: "Vector3 \<Rightarrow> Vector3 \<Rightarrow> real" where
  "Vector3Distance v1 v2 = Vector3Length (Vector3Subtract v2 v1)"

definition Vector3Normalize :: "Vector3 \<Rightarrow> Vector3" where
  "Vector3Normalize v =
     (let len = Vector3Length v in
        if len \<noteq> 0 then Vector3Scale v (1 / len) else v)"

section \<open>The NPC automaton and the player's movement\<close>

text \<open>
  \<^verbatim>\<open>Think\<close> uses its maze argument only to call \<^verbatim>\<open>GetRandomSpawnPosition\<close>, which
  reads the grid dimensions and \<^verbatim>\<open>rand()\<close> but no cell; \<^verbatim>\<open>Update\<close> also reads the
  walls, through \<^verbatim>\<open>CheckWallCollision\<close>. The candidate position of \<^verbatim>\<open>Update\<close>,
  \<^verbatim>\<open>position + Normalize(target - position) * (speed * deltaTime)\<close>, is \<open>npc_newPos\<close>.
\<close>

definition Think :: "int \<Rightarrow> int \<Rightarrow> NPC \<Rightarrow> Vector3 \<Rightarrow> real \<Rightarrow> rng \<Rightarrow> NPC \<times> rng" where
  "Think W H n playerPos deltaTime r =
     (let n1 = n\<lparr>thinkTimer := thinkTimer n + deltaTime\<rparr> in
        if thinkTimer n1 > 1 / 2 then
          (let n2 = n1\<lparr>thinkTimer := 0\<rparr>;
               distToPlayer = Vector3Distance (position n2) playerPos
           in if distToPlayer < 3 then
                (let n3 = n2\<lparr>state := FLEEING\<rparr>;
                     awayDir = Vector3Normalize (Vector3Subtract (position n3) playerPos)
                 in (n3\<lparr>target := Vector3Add (position n3) (Vector3Scale awayDir 2)\<rparr>, r))
              else if distToPlayer < 5 then
                (n2\<lparr>state := CHASING, target := playerPos\<rparr>, r)
              else
                (let n3 = n2\<lparr>state := WANDERING\<rparr>;
                     (v, r1) = rand r
                 in if v mod 10 < 3 then
                      (let (p, r2) = GetRandomSpawnPosition W H r1 in (n3\<lparr>target := p\<rparr>, r2))
                    else (n3, r1)))
        else (n1, r))"

definition npc_newPos :: "NPC \<Rightarrow> real \<Rightarrow> Vector3" where
  "npc_newPos n deltaTime =
     (let direction = Vector3Normalize (Vector3Subtract (target n) (position n));
          move = Vector3Scale direction (speed n * deltaTime)
      in Vector3Add (position n) move)"

definition Update :: "int \<Rightarrow> int \<Rightarrow> cells \<Rightarrow> NPC \<Rightarrow> real \<Rightarrow> rng \<Rightarrow> NPC \<times> rng" where
  "Update W H g n deltaTime r =
     (let direction = Vector3Subtract (target n) (position n);
          distance = Vector3Length direction
      in if distance > 1 / 10 then
           (let newPos = npc_newPos n deltaTime
            in if \<not> CheckWallCollision W H g newPos then (n\<lparr>position := newPos\<rparr>, r)
               else (let (p, r') = GetRandomSpawnPosition W H r in (n\<lparr>target := p\<rparr>, r')))
         else (n, r))"

text \<open>The player's movement in \<^verbatim>\<open>main\<close>: one candidate per axis, each tested alone.\<close>

definition player_move :: "int \<Rightarrow> int \<Rightarrow> cells \<Rightarrow> Vector3 \<Rightarrow> Vector3 \<Rightarrow> Vector3" where
  "player_move W H g pos velocity =
     (let newPosX = \<lparr>vx = vx pos + vx velocity, vy = vy pos, vz = vz pos\<rparr>;
          newPosZ = \<lparr>vx = vx pos, vy = vy pos, vz = vz pos + vz velocity\<rparr>;
          pos1 = (if \<not> CheckWallCollision W H g newPosX then pos\<lparr>vx := vx newPosX\<rparr> else pos)
      in if \<not> CheckWallCollision W H g newPosZ then pos1\<lparr>vz := vz newPosZ\<rparr> else pos1)"

text \<open>A tick of the main loop calls \<^verbatim>\<open>Think\<close> and then \<^verbatim>\<open>Update\<close> on each NPC.\<close>

datatype npc_call = ThinkCall Vector3 real | UpdateCall real

fun npc_run :: "int \<Rightarrow> int \<Rightarrow> cells \<Rightarrow> npc_call list \<Rightarrow> NPC \<times> rng \<Rightarrow> NPC \<times> rng" where
  "npc_run W H g [] s = s"
| "npc_run W H g (ThinkCall playerPos dt # cs) s =
     npc_run W H g cs (Think W H (fst s) playerPos dt (snd s))"
| "npc_run W H g (UpdateCall dt # cs) s =
     npc_run W H g cs (Update W H g (fst s) dt (snd s))"

section \<open>Observations and test data\<close>

text \<open>What a caller sees of a run of \<^verbatim>\<open>Generate\<close>: the wall flags of a cell of the
  generated maze, and the spawn position drawn right after the run.\<close>

definition generated_walls :: "int \<Rightarrow> int \<Rightarrow> MazeGenerator \<Rightarrow> rng \<Rightarrow> cellptr \<Rightarrow> bool list option" where
  "generated_walls W H m r p =
     (case Generate W H m r of None \<Rightarrow> None | Some (m', r') \<Rightarrow> Some (walls (grid m' p)))"

definition spawn_after_Generate :: "int \<Rightarrow> int \<Rightarrow> MazeGenerator \<Rightarrow> rng \<Rightarrow> Vector3 option" where
  "spawn_after_Generate W H m r =
     (case Generate W H m r of
        None \<Rightarrow> None
      | Some (m', r') \<Rightarrow> Some (fst (GetRandomSpawnPosition W H r')))"

text \<open>A loop iteration selects when \<^verbatim>\<open>GetUnvisitedNeighbour\<close> returns a cell.\<close>

definition selects :: "int \<Rightarrow> int \<Rightarrow> gen_state \<Rightarrow> bool" where
  "selects W H s =
     (fst (GetUnvisitedNeighbour W H (grid (fst s)) (fst (snd s)) (snd (snd s))) \<noteq> None)"

text \<open>Random sequences: \<open>1, 1, 0, 0, \<dots>\<close>, then \<open>1, 0, 0, \<dots>\<close>, then all ones, all zeros
  and all sevens.\<close>

definition rngA :: rng where
  "rngA = (\<lambda>i. if i < 2 then 1 else 0)"

definition rngB :: rng where
  "rngB = (\<lambda>i. if i = 0 then 1 else 0)"

definition rngC :: rng where
  "rngC = (\<lambda>i. 1)"

definition rngZ :: rng where
  "rngZ = (\<lambda>i. 0)"

definition rng7 :: rng where
  "rng7 = (\<lambda>i. 7)"

definition origin :: Vector3 where
  "origin = \<lparr>vx = 0, vy = 0, vz = 0\<rparr>"

text \<open>An NPC two units from the origin whose timer is about to fire.\<close>

definition npc0 :: NPC where
  "npc0 = \<lparr>position = \<lparr>vx = 2, vy = 0, vz = 0\<rparr>, target = \<lparr>vx = 7, vy = 1 / 4, vz = 7\<rparr>,
           speed = 2, thinkTimer = 1 / 2, color = (55, 55, 55, 255), state = WANDERING\<rparr>"

text \<open>The same NPC four and six units from the origin.\<close>

definition npc4 :: NPC where
  "npc4 = npc0\<lparr>position := \<lparr>vx = 4, vy = 0, vz = 0\<rparr>\<rparr>"

definition npc6 :: NPC where
  "npc6 = npc0\<lparr>position := \<lparr>vx = 6, vy = 0, vz = 0\<rparr>\<rparr>"

text \<open>An NPC in cell \<open>(0, 0)\<close> heading diagonally towards the cell's top wall.\<close>

definition npc1 :: NPC where
  "npc1 = \<lparr>position = \<lparr>vx = 0, vy = 1 / 4, vz = 1 / 4\<rparr>,
           target = \<lparr>vx = 3, vy = 1 / 4, vz = 17 / 4\<rparr>,
           speed = 2, thinkTimer = 0, color = (55, 55, 55, 255), state = WANDERING\<rparr>"

text \<open>The maze right after \<^verbatim>\<open>Initialize\<close>, at the program's size: every wall closed.\<close>

definition closed_maze :: cells where
  "closed_maze = grid (Initialize MAZE_WIDTH MAZE_HEIGHT new_MazeGenerator)"

section \<open>Properties of a grid\<close>

text \<open>Every cell of the grid carries its own indices and four wall flags.\<close>

definition wf_cells :: "int \<Rightarrow> int \<Rightarrow> cells \<Rightarrow> bool" where
  "wf_cells W H g =
     (\<forall>p. in_grid W H p \<longrightarrow> cx (g p) = fst p \<and> cy (g p) = snd p \<and> length (walls (g p)) = 4)"

text \<open>The side of cell \<open>p\<close> that faces an orthogonally adjacent cell \<open>q\<close>, as an index into
  \<^verbatim>\<open>walls\<close>: 0 towards \<open>y + 1\<close>, 1 towards \<open>x + 1\<close>, 2 towards \<open>y - 1\<close>, 3 towards \<open>x - 1\<close>.\<close>

definition facing :: "cellptr \<Rightarrow> cellptr \<Rightarrow> nat option" where
  "facing p q =
     (if q = (fst p, snd p + 1) then Some 0
      else if q = (fst p + 1, snd p) then Some 1
      else if q = (fst p, snd p - 1) then Some 2
      else if q = (fst p - 1, snd p) then Some 3
      else None)"

definition adjacent :: "cellptr \<Rightarrow> cellptr \<Rightarrow> bool" where
  "adjacent p q = (facing p q \<noteq> None)"

text \<open>The loop state is in order when the grid is well formed and \<^verbatim>\<open>current\<close> and every
  stack entry point into the grid. The measure counts two for each unvisited cell and one for
  each stack entry.\<close>

definition gen_ok :: "int \<Rightarrow> int \<Rightarrow> gen_state \<Rightarrow> bool" where
  "gen_ok W H s =
     (wf_cells W H (grid (fst s)) \<and> in_grid W H (fst (snd s)) \<and>
      (\<forall>p \<in> set (pathStack (fst s)). in_grid W H p))"

definition gen_measure :: "int \<Rightarrow> int \<Rightarrow> gen_state \<Rightarrow> nat" where
  "gen_measure W H s =
     2 * card {p. in_grid W H p \<and> \<not> visited (grid (fst s) p)} + length (pathStack (fst s))"

definition opposite :: "nat \<Rightarrow> nat" where
  "opposite i = (i + 2) mod 4"

text \<open>Every cell on the rim of the grid has the wall on its outward side.\<close>

definition perimeter_walls :: "int \<Rightarrow> int \<Rightarrow> cells \<Rightarrow> bool" where
  "perimeter_walls W H g =
     (\<forall>a b. in_grid W H (a, b) \<longrightarrow>
        (b = H - 1 \<longrightarrow> walls (g (a, b)) ! 0) \<and>
        (a = W - 1 \<longrightarrow> walls (g (a, b)) ! 1) \<and>
        (b = 0 \<longrightarrow> walls (g (a, b)) ! 2) \<and>
        (a = 0 \<longrightarrow> walls (g (a, b)) ! 3))"

text \<open>Two adjacent cells of the grid agree on the wall between them.\<close>

definition wall_symmetric :: "int \<Rightarrow> int \<Rightarrow> cells \<Rightarrow> bool" where
  "wall_symmetric W H g =
     (\<forall>p q i j. in_grid W H p \<and> in_grid W H q \<and> facing p q = Some i \<and> facing q p = Some j \<longrightarrow>
        (\<not> walls (g p) ! i) = (\<not> walls (g q) ! j))"

text \<open>A sequence of \<^verbatim>\<open>RemoveWall\<close> calls, each on a pair (current, next).\<close>

definition RemoveWalls :: "cells \<Rightarrow> (cellptr \<times> cellptr) list \<Rightarrow> cells" where
  "RemoveWalls g ps = fold (\<lambda>pq g'. RemoveWall g' (fst pq) (snd pq)) ps g"

definition adjacent_pairs :: "int \<Rightarrow> int \<Rightarrow> (cellptr \<times> cellptr) list \<Rightarrow> bool" where
  "adjacent_pairs W H ps =
     (\<forall>pq \<in> set ps. in_grid W H (fst pq) \<and> in_grid W H (snd pq) \<and> adjacent (fst pq) (snd pq))"

section \<open>The maze as a graph\<close>

text \<open>There is an open passage between two cells of the grid when they are orthogonally
  adjacent and neither has the wall on the side facing the other.\<close>

definition passage :: "int \<Rightarrow> int \<Rightarrow> cells \<Rightarrow> cellptr \<Rightarrow> cellptr \<Rightarrow> bool" where
  "passage W H g p q =
     (in_grid W H p \<and> in_grid W H q \<and>
      (case facing p q of
         None \<Rightarrow> False
       | Some i \<Rightarrow> \<not> walls (g p) ! i \<and> \<not> walls (g q) ! opposite i))"

text \<open>The cells that a flood fill from \<open>(0, 0)\<close> over open passages visits.\<close>

inductive reachable :: "int \<Rightarrow> int \<Rightarrow> cells \<Rightarrow> cellptr \<Rightarrow> bool" for W H g where
  start: "reachable W H g (0, 0)"
| step: "reachable W H g p \<Longrightarrow> passage W H g p q \<Longrightarrow> reachable W H g q"

text \<open>Every pair of adjacent cells of the grid, once: each cell with its right neighbour, then
  each cell with its upper neighbour. The open pairs are those with a passage.\<close>

definition all_pairs :: "int \<Rightarrow> int \<Rightarrow> (cellptr \<times> cellptr) list" where
  "all_pairs W H =
     map (\<lambda>p. (p, (fst p + 1, snd p))) (List.product [0..W - 2] [0..H - 1]) @
     map (\<lambda>p. (p, (fst p, snd p + 1))) (List.product [0..W - 1] [0..H - 2])"

definition open_pairs :: "int \<Rightarrow> int \<Rightarrow> cells \<Rightarrow> (cellptr \<times> cellptr) list" where
  "open_pairs W H g = filter (\<lambda>pq. passage W H g (fst pq) (snd pq)) (all_pairs W H)"

text \<open>A cycle: at least three distinct cells, each with a passage to the next and the last
  with a passage to the first.\<close>

definition cycle :: "int \<Rightarrow> int \<Rightarrow> cells \<Rightarrow> cellptr list \<Rightarrow> bool" where
  "cycle W H g cs =
     (3 \<le> length cs \<and> distinct cs \<and>
      (\<forall>i < length cs. passage W H g (cs ! i) (cs ! (Suc i mod length cs))))"

definition spanning_tree :: "int \<Rightarrow> int \<Rightarrow> cells \<Rightarrow> bool" where
  "spanning_tree W H g =
     ((\<forall>p. in_grid W H p \<longrightarrow> reachable W H g p) \<and>
      length (open_pairs W H g) = nat (W * H - 1) \<and>
      (\<forall>cs. \<not> cycle W H g cs))"

text \<open>For the proof: the visited cells in the order of their visits, latest first. Every cell
  but the first visited has exactly one passage to a cell visited before it.\<close>

fun tree_order :: "int \<Rightarrow> int \<Rightarrow> cells \<Rightarrow> cellptr list \<Rightarrow> bool" where
  "tree_order W H g [] = True"
| "tree_order W H g (c # rest) =
     ((rest = [] \<or> (\<exists>!q. q \<in> set rest \<and> passage W H g c q)) \<and> tree_order W H g rest)"

definition visited_cells :: "int \<Rightarrow> int \<Rightarrow> cells \<Rightarrow> cellptr set" where
  "visited_cells W H g = {p. in_grid W H p \<and> visited (g p)}"

definition closed_unvisited :: "int \<Rightarrow> int \<Rightarrow> cells \<Rightarrow> bool" where
  "closed_unvisited W H g =
     (\<forall>p k. in_grid W H p \<and> \<not> visited (g p) \<and> k < 4 \<longrightarrow> walls (g p) ! k)"

definition visit_tree :: "int \<Rightarrow> int \<Rightarrow> cells \<Rightarrow> bool" where
  "visit_tree W H g =
     (\<exists>ord. ord \<noteq> [] \<and> distinct ord \<and> set ord = visited_cells W H g \<and> last ord = (0, 0) \<and>
        tree_order W H g ord)"

text \<open>The invariant of the loop of \<^verbatim>\<open>Generate\<close>: unvisited cells have all their walls; the
  passages form a tree on the visited cells, one passage fewer than cells; \<^verbatim>\<open>current\<close> and
  the stack entries are visited; a visited cell that is neither \<^verbatim>\<open>current\<close> nor on the stack has
  no unvisited neighbour; and the stack ends with the start cell twice, or holds it once while
  \<^verbatim>\<open>current\<close> is the start cell, or is empty with nothing left to visit from \<^verbatim>\<open>current\<close>.\<close>

definition tree_inv :: "int \<Rightarrow> int \<Rightarrow> gen_state \<Rightarrow> bool" where
  "tree_inv W H s =
     (let g = grid (fst s); st = pathStack (fst s); c = fst (snd s) in
        closed_unvisited W H g \<and> visit_tree W H g \<and>
        Suc (length (open_pairs W H g)) = card (visited_cells W H g) \<and>
        visited (g c) \<and> (\<forall>p \<in> set st. visited (g p)) \<and>
        (\<forall>p. p \<in> visited_cells W H g \<and> p \<notin> set (c # st) \<longrightarrow> unvisited_neighbours W H g p = []) \<and>
        ((st = [(0, 0)] \<and> c = (0, 0)) \<or> (\<exists>rest. st = rest @ [(0, 0), (0, 0)]) \<or>
         (st = [] \<and> unvisited_neighbours W H g c = [])) \<and>
        wall_symmetric W H g)"

section \<open>Initialize\<close>

lemma fold_row:
  "fold (\<lambda>b g'. g'((a, b) := new_Cell a b)) bs g p =
     (if fst p = a \<and> snd p \<in> set bs then new_Cell a (snd p) else g p)"
  by (induction bs arbitrary: g) (auto simp: prod_eq_iff)

lemma fold_rows:
  "fold (\<lambda>a g. fold (\<lambda>b g'. g'((a, b) := new_Cell a b)) bs g) as g p =
     (if fst p \<in> set as \<and> snd p \<in> set bs then new_Cell (fst p) (snd p) else g p)"
  by (induction as arbitrary: g) (auto simp: fold_row)

lemma grid_Initialize:
  "grid (Initialize W H m) p = (if in_grid W H p then new_Cell (fst p) (snd p) else grid m p)"
  by (auto simp: Initialize_def fold_rows in_grid_def)

lemma pathStack_Initialize: "pathStack (Initialize W H m) = pathStack m"
  by (simp add: Initialize_def)

lemmas gen_eval = gen_step_def gen_init_def GetUnvisitedNeighbour_def unvisited_neighbours_def
  rand_def set_visited_def set_wall_def RemoveWall_def grid_Initialize pathStack_Initialize
  in_grid_def new_Cell_def new_MazeGenerator_def Let_def

section \<open>Collision outside the grid\<close>

lemma GetCell_None: "\<not> in_grid W H (a, b) \<Longrightarrow> GetCell W H a b = None"
  by (auto simp: GetCell_def in_grid_def)

text \<open>C5: a position whose cell index is outside the grid gets no cell and is blocked, whatever the walls.\<close>

theorem C5_out_of_grid_blocked:
  "\<not> in_grid W H (cell_of newPos) \<Longrightarrow>
     GetCell W H (fst (cell_of newPos)) (snd (cell_of newPos)) = None \<and>
     CheckWallCollision W H g newPos"
  by (simp add: CheckWallCollision_def Let_def GetCell_None)

theorem C5_out_of_grid_blocked_witness:
  "\<not> in_grid MAZE_WIDTH MAZE_HEIGHT (cell_of \<lparr>vx = - 2, vy = 1 / 4, vz = 3\<rparr>) \<and>
   GetCell MAZE_WIDTH MAZE_HEIGHT (fst (cell_of \<lparr>vx = - 2, vy = 1 / 4, vz = 3\<rparr>))
     (snd (cell_of \<lparr>vx = - 2, vy = 1 / 4, vz = 3\<rparr>)) = None \<and>
   CheckWallCollision MAZE_WIDTH MAZE_HEIGHT closed_maze \<lparr>vx = - 2, vy = 1 / 4, vz = 3\<rparr>"
proof -
  have out: "\<not> in_grid MAZE_WIDTH MAZE_HEIGHT (cell_of \<lparr>vx = - 2, vy = 1 / 4, vz = 3\<rparr>)"
    by (simp add: in_grid_def cell_of_def to_int_def CELL_SIZE_def)
  from out C5_out_of_grid_blocked [OF out, of closed_maze] show ?thesis by simp
qed

section \<open>The NPC automaton\<close>

lemma Think_not_patrol:
  "state n \<noteq> PATROLLING \<Longrightarrow> state (fst (Think W H n playerPos dt r)) \<noteq> PATROLLING"
  by (auto simp: Think_def Let_def split: prod.splits)

lemma Update_state: "state (fst (Update W H g n dt r)) = state n"
  by (auto simp: Update_def Let_def split: prod.splits)

lemma npc_run_not_patrol:
  "state (fst s) \<noteq> PATROLLING \<Longrightarrow> state (fst (npc_run W H g cs s)) \<noteq> PATROLLING"
proof (induction cs arbitrary: s)
  case Nil
  then show ?case by simp
next
  case (Cons c cs)
  show ?case
  proof (cases c)
    case (ThinkCall p dt)
    with Cons show ?thesis by (simp add: Think_not_patrol)
  next
    case (UpdateCall dt)
    with Cons show ?thesis by (simp add: Update_state)
  qed
qed

text \<open>C8: from the initial state WANDERING, no sequence of Think and Update calls, whatever
  the player positions, the delta-times, the maze and the random draws, leaves the NPC in PATROLLING.\<close>

theorem C8_never_patrol:
  "state n = WANDERING \<Longrightarrow> state (fst (npc_run W H g cs (n, r))) \<noteq> PATROLLING"
  using npc_run_not_patrol [of "(n, r)" W H g cs] by simp

theorem C8_never_patrol_witness:
  "state npc0 = WANDERING \<and>
   state (fst (npc_run MAZE_WIDTH MAZE_HEIGHT closed_maze
     [ThinkCall origin (1 / 60), UpdateCall (1 / 60), ThinkCall origin 1, UpdateCall 1]
     (npc0, rngA))) \<noteq> PATROLLING"
proof -
  have w: "state npc0 = WANDERING" by (simp add: npc0_def)
  from w C8_never_patrol [OF w] show ?thesis by blast
qed

lemma sqrt_4: "sqrt 4 = 2"
  using real_sqrt_abs [of 2] by simp

lemma sqrt_25: "sqrt 25 = 5"
  using real_sqrt_abs [of 5] by simp

text \<open>C4: when the timer fires, the distance to the player decides the state and the target:
  below 3 FLEEING with the target two units away from the player, from 3 and below 5 CHASING with
  the player as target, from 5 on WANDERING, where the next draw modulo 10 being 0, 1 or 2 (three
  residues of ten) replaces the target by a spawn point and any other draw leaves it.\<close>

theorem C4_think:
  "thinkTimer n + deltaTime > 1 / 2 \<Longrightarrow>
   (Vector3Distance (position n) playerPos < 3 \<longrightarrow>
      Think W H n playerPos deltaTime r =
        (n\<lparr>thinkTimer := 0, state := FLEEING,
           target := Vector3Add (position n)
             (Vector3Scale (Vector3Normalize (Vector3Subtract (position n) playerPos)) 2)\<rparr>, r)) \<and>
   (3 \<le> Vector3Distance (position n) playerPos \<and> Vector3Distance (position n) playerPos < 5 \<longrightarrow>
      Think W H n playerPos deltaTime r =
        (n\<lparr>thinkTimer := 0, state := CHASING, target := playerPos\<rparr>, r)) \<and>
   (5 \<le> Vector3Distance (position n) playerPos \<longrightarrow>
      (fst (rand r) mod 10 < 3 \<longrightarrow>
         Think W H n playerPos deltaTime r =
           (n\<lparr>thinkTimer := 0, state := WANDERING,
              target := fst (GetRandomSpawnPosition W H (snd (rand r)))\<rparr>,
            snd (GetRandomSpawnPosition W H (snd (rand r))))) \<and>
      (\<not> fst (rand r) mod 10 < 3 \<longrightarrow>
         Think W H n playerPos deltaTime r =
           (n\<lparr>thinkTimer := 0, state := WANDERING\<rparr>, snd (rand r))))"
  by (auto simp add: Think_def Let_def split: prod.splits)

lemma sqrt_16: "sqrt 16 = 4"
  using real_sqrt_abs [of 4] by simp

lemma sqrt_36: "sqrt 36 = 6"
  using real_sqrt_abs [of 6] by simp

lemma npc0_distance: "Vector3Distance (position npc0) origin = 2"
  by (simp add: npc0_def origin_def Vector3Distance_def Vector3Length_def Vector3Subtract_def sqrt_4)

lemma npc4_distance: "Vector3Distance (position npc4) origin = 4"
  by (simp add: npc4_def origin_def Vector3Distance_def Vector3Length_def Vector3Subtract_def sqrt_16)

lemma npc6_distance: "Vector3Distance (position npc6) origin = 6"
  by (simp add: npc6_def origin_def Vector3Distance_def Vector3Length_def Vector3Subtract_def sqrt_36)

lemma npc0_away:
  "Vector3Normalize (Vector3Subtract (position npc0) origin) = \<lparr>vx = 1, vy = 0, vz = 0\<rparr>"
  by (simp add: npc0_def origin_def Vector3Normalize_def Vector3Length_def Vector3Subtract_def
      Vector3Scale_def sqrt_4)

lemma spawn_rngZ:
  "GetRandomSpawnPosition MAZE_WIDTH MAZE_HEIGHT rngZ = (\<lparr>vx = 0, vy = 1 / 4, vz = 0\<rparr>, rngZ)"
  by (simp add: GetRandomSpawnPosition_def rand_def rngZ_def CELL_SIZE_def PLAYER_HEIGHT_def)

lemma rand_rngZ: "rand rngZ = (0, rngZ)"
  by (simp add: rand_def rngZ_def)

lemma rand_rng7: "rand rng7 = (7, rng7)"
  by (simp add: rand_def rng7_def)

theorem C4_think_witness:
  "thinkTimer npc0 + 1 / 60 > 1 / 2 \<and> Vector3Distance (position npc0) origin < 3 \<and>
   Think MAZE_WIDTH MAZE_HEIGHT npc0 origin (1 / 60) rngZ =
     (npc0\<lparr>thinkTimer := 0, state := FLEEING, target := \<lparr>vx = 4, vy = 0, vz = 0\<rparr>\<rparr>, rngZ) \<and>
   thinkTimer npc4 + 1 / 60 > 1 / 2 \<and> 3 \<le> Vector3Distance (position npc4) origin \<and>
   Vector3Distance (position npc4) origin < 5 \<and>
   Think MAZE_WIDTH MAZE_HEIGHT npc4 origin (1 / 60) rngZ =
     (npc4\<lparr>thinkTimer := 0, state := CHASING, target := origin\<rparr>, rngZ) \<and>
   thinkTimer npc6 + 1 / 60 > 1 / 2 \<and> 5 \<le> Vector3Distance (position npc6) origin \<and>
   fst (rand rngZ) mod 10 < 3 \<and>
   Think MAZE_WIDTH MAZE_HEIGHT npc6 origin (1 / 60) rngZ =
     (npc6\<lparr>thinkTimer := 0, state := WANDERING, target := \<lparr>vx = 0, vy = 1 / 4, vz = 0\<rparr>\<rparr>, rngZ) \<and>
   \<not> fst (rand rng7) mod 10 < 3 \<and>
   Think MAZE_WIDTH MAZE_HEIGHT npc6 origin (1 / 60) rng7 =
     (npc6\<lparr>thinkTimer := 0, state := WANDERING\<rparr>, rng7)"
proof -
  have t0: "thinkTimer npc0 + 1 / 60 > 1 / 2" by (simp add: npc0_def)
  have t4: "thinkTimer npc4 + 1 / 60 > 1 / 2" by (simp add: npc4_def npc0_def)
  have t6: "thinkTimer npc6 + 1 / 60 > 1 / 2" by (simp add: npc6_def npc0_def)
  have flee: "Think MAZE_WIDTH MAZE_HEIGHT npc0 origin (1 / 60) rngZ =
     (npc0\<lparr>thinkTimer := 0, state := FLEEING, target := \<lparr>vx = 4, vy = 0, vz = 0\<rparr>\<rparr>, rngZ)"
    using C4_think [OF t0, of origin MAZE_WIDTH MAZE_HEIGHT rngZ]
    by (simp add: npc0_distance npc0_away Vector3Add_def Vector3Scale_def) (simp add: npc0_def)
  have chase: "Think MAZE_WIDTH MAZE_HEIGHT npc4 origin (1 / 60) rngZ =
     (npc4\<lparr>thinkTimer := 0, state := CHASING, target := origin\<rparr>, rngZ)"
    using C4_think [OF t4, of origin MAZE_WIDTH MAZE_HEIGHT rngZ]
    by (simp add: npc4_distance)
  have wander1: "Think MAZE_WIDTH MAZE_HEIGHT npc6 origin (1 / 60) rngZ =
     (npc6\<lparr>thinkTimer := 0, state := WANDERING, target := \<lparr>vx = 0, vy = 1 / 4, vz = 0\<rparr>\<rparr>, rngZ)"
    using C4_think [OF t6, of origin MAZE_WIDTH MAZE_HEIGHT rngZ]
    by (simp add: npc6_distance rand_rngZ spawn_rngZ)
  have wander2: "Think MAZE_WIDTH MAZE_HEIGHT npc6 origin (1 / 60) rng7 =
     (npc6\<lparr>thinkTimer := 0, state := WANDERING\<rparr>, rng7)"
    using C4_think [OF t6, of origin MAZE_WIDTH MAZE_HEIGHT rng7]
    by (simp add: npc6_distance rand_rng7)
  show ?thesis
    using t0 t4 t6 flee chase wander1 wander2
    by (simp add: npc0_distance npc4_distance npc6_distance rand_rngZ rand_rng7)
qed

section \<open>NPC movement\<close>

lemma npc1_length: "Vector3Length (Vector3Subtract (target npc1) (position npc1)) = 5"
  by (simp add: npc1_def Vector3Length_def Vector3Subtract_def sqrt_25)

lemma npc1_newPos: "npc_newPos npc1 (1 / 10) = \<lparr>vx = 3 / 25, vy = 1 / 4, vz = 41 / 100\<rparr>"
  using npc1_length
  by (simp add: npc_newPos_def Vector3Normalize_def Let_def)
     (simp add: npc1_def Vector3Subtract_def Vector3Scale_def Vector3Add_def)

lemma closed_maze_cell: "in_grid MAZE_WIDTH MAZE_HEIGHT p \<Longrightarrow> closed_maze p = new_Cell (fst p) (snd p)"
  by (simp add: closed_maze_def grid_Initialize)

lemma npc1_blocked:
  "CheckWallCollision MAZE_WIDTH MAZE_HEIGHT closed_maze \<lparr>vx = 3 / 25, vy = 1 / 4, vz = 41 / 100\<rparr>"
  by (simp add: CheckWallCollision_def cell_of_def to_int_def GetCell_def MAZE_WIDTH_def
      MAZE_HEIGHT_def closed_maze_def grid_Initialize in_grid_def new_Cell_def CELL_SIZE_def
      PLAYER_RADIUS_def)

lemma npc1_x_free:
  "\<not> CheckWallCollision MAZE_WIDTH MAZE_HEIGHT closed_maze \<lparr>vx = 3 / 25, vy = 1 / 4, vz = 1 / 4\<rparr>"
  by (simp add: CheckWallCollision_def cell_of_def to_int_def GetCell_def MAZE_WIDTH_def
      MAZE_HEIGHT_def closed_maze_def grid_Initialize in_grid_def new_Cell_def CELL_SIZE_def
      PLAYER_RADIUS_def)

lemma npc1_Update:
  "Update MAZE_WIDTH MAZE_HEIGHT closed_maze npc1 (1 / 10) rngZ
   = (npc1\<lparr>target := \<lparr>vx = 0, vy = 1 / 4, vz = 0\<rparr>\<rparr>, rngZ)"
  by (simp add: Update_def npc1_length npc1_newPos npc1_blocked spawn_rngZ)

text \<open>C3, refuted as stated: the NPC \<open>npc1\<close> is more than 0.1 from its target, the candidate
  with only the x-component changed is free, and yet the call does not move the NPC to where the
  player's per-axis resolution of the same displacement would, and it abandons the target.\<close>

theorem C3_counterexample:
  "Vector3Length (Vector3Subtract (target npc1) (position npc1)) > 1 / 10 \<and>
   \<not> CheckWallCollision MAZE_WIDTH MAZE_HEIGHT closed_maze
       \<lparr>vx = vx (npc_newPos npc1 (1 / 10)), vy = vy (position npc1), vz = vz (position npc1)\<rparr> \<and>
   position (fst (Update MAZE_WIDTH MAZE_HEIGHT closed_maze npc1 (1 / 10) rngZ)) \<noteq>
     player_move MAZE_WIDTH MAZE_HEIGHT closed_maze (position npc1)
       (Vector3Subtract (npc_newPos npc1 (1 / 10)) (position npc1)) \<and>
   target (fst (Update MAZE_WIDTH MAZE_HEIGHT closed_maze npc1 (1 / 10) rngZ)) \<noteq> target npc1"
  apply (simp add: npc1_Update npc1_length npc1_newPos)
  apply (simp add: npc1_def player_move_def Vector3Subtract_def npc1_x_free Let_def)
  done

text \<open>C3, amended: when the target is more than 0.1 away, the NPC tests the single candidate
  with the whole displacement added; if it is free the NPC moves there and keeps its target, and
  if it is blocked the NPC stays where it is and takes a fresh random spawn point as target.\<close>

theorem C3_single_candidate:
  "Vector3Length (Vector3Subtract (target n) (position n)) > 1 / 10 \<Longrightarrow>
   (\<not> CheckWallCollision W H g (npc_newPos n deltaTime) \<longrightarrow>
      Update W H g n deltaTime r = (n\<lparr>position := npc_newPos n deltaTime\<rparr>, r)) \<and>
   (CheckWallCollision W H g (npc_newPos n deltaTime) \<longrightarrow>
      Update W H g n deltaTime r =
        (n\<lparr>target := fst (GetRandomSpawnPosition W H r)\<rparr>, snd (GetRandomSpawnPosition W H r)))"
  by (simp add: Update_def Let_def split: prod.splits)

lemma npc1_newPos_small:
  "npc_newPos npc1 (1 / 100) = \<lparr>vx = 3 / 250, vy = 1 / 4, vz = 133 / 500\<rparr>"
  using npc1_length
  by (simp add: npc_newPos_def Vector3Normalize_def Let_def)
     (simp add: npc1_def Vector3Subtract_def Vector3Scale_def Vector3Add_def)

lemma npc1_free_small:
  "\<not> CheckWallCollision MAZE_WIDTH MAZE_HEIGHT closed_maze \<lparr>vx = 3 / 250, vy = 1 / 4, vz = 133 / 500\<rparr>"
  by (simp add: CheckWallCollision_def cell_of_def to_int_def GetCell_def MAZE_WIDTH_def
      MAZE_HEIGHT_def closed_maze_def grid_Initialize in_grid_def new_Cell_def CELL_SIZE_def
      PLAYER_RADIUS_def)

theorem C3_single_candidate_witness:
  "Vector3Length (Vector3Subtract (target npc1) (position npc1)) > 1 / 10 \<and>
   CheckWallCollision MAZE_WIDTH MAZE_HEIGHT closed_maze (npc_newPos npc1 (1 / 10)) \<and>
   Update MAZE_WIDTH MAZE_HEIGHT closed_maze npc1 (1 / 10) rngZ =
     (npc1\<lparr>target := fst (GetRandomSpawnPosition MAZE_WIDTH MAZE_HEIGHT rngZ)\<rparr>,
      snd (GetRandomSpawnPosition MAZE_WIDTH MAZE_HEIGHT rngZ)) \<and>
   \<not> CheckWallCollision MAZE_WIDTH MAZE_HEIGHT closed_maze (npc_newPos npc1 (1 / 100)) \<and>
   Update MAZE_WIDTH MAZE_HEIGHT closed_maze npc1 (1 / 100) rngZ =
     (npc1\<lparr>position := npc_newPos npc1 (1 / 100)\<rparr>, rngZ)"
proof -
  have f: "Vector3Length (Vector3Subtract (target npc1) (position npc1)) > 1 / 10"
    by (simp add: npc1_length)
  have b: "CheckWallCollision MAZE_WIDTH MAZE_HEIGHT closed_maze (npc_newPos npc1 (1 / 10))"
    by (simp add: npc1_newPos npc1_blocked)
  have n: "\<not> CheckWallCollision MAZE_WIDTH MAZE_HEIGHT closed_maze (npc_newPos npc1 (1 / 100))"
    by (simp add: npc1_newPos_small npc1_free_small)
  from f b n C3_single_candidate [OF f, of MAZE_WIDTH MAZE_HEIGHT closed_maze "1 / 10" rngZ]
    C3_single_candidate [OF f, of MAZE_WIDTH MAZE_HEIGHT closed_maze "1 / 100" rngZ]
  show ?thesis by blast
qed

text \<open>C10: an Update whose attempted move the collision check rejects leaves the position, the
  state and the think timer (and the speed and the colour) as they were; of the NPC's fields only
  the target changes, to a fresh random spawn point.\<close>

theorem C10_rejected_move_frame:
  "Vector3Length (Vector3Subtract (target n) (position n)) > 1 / 10 \<Longrightarrow>
   CheckWallCollision W H g (npc_newPos n deltaTime) \<Longrightarrow>
   fst (Update W H g n deltaTime r) = n\<lparr>target := fst (GetRandomSpawnPosition W H r)\<rparr> \<and>
   position (fst (Update W H g n deltaTime r)) = position n \<and>
   state (fst (Update W H g n deltaTime r)) = state n \<and>
   thinkTimer (fst (Update W H g n deltaTime r)) = thinkTimer n"
  by (simp add: Update_def Let_def split: prod.splits)

theorem C10_rejected_move_frame_witness:
  "Vector3Length (Vector3Subtract (target npc1) (position npc1)) > 1 / 10 \<and>
   CheckWallCollision MAZE_WIDTH MAZE_HEIGHT closed_maze (npc_newPos npc1 (1 / 10)) \<and>
   fst (Update MAZE_WIDTH MAZE_HEIGHT closed_maze npc1 (1 / 10) rngZ) =
     npc1\<lparr>target := fst (GetRandomSpawnPosition MAZE_WIDTH MAZE_HEIGHT rngZ)\<rparr> \<and>
   position (fst (Update MAZE_WIDTH MAZE_HEIGHT closed_maze npc1 (1 / 10) rngZ)) = position npc1 \<and>
   state (fst (Update MAZE_WIDTH MAZE_HEIGHT closed_maze npc1 (1 / 10) rngZ)) = state npc1 \<and>
   thinkTimer (fst (Update MAZE_WIDTH MAZE_HEIGHT closed_maze npc1 (1 / 10) rngZ)) = thinkTimer npc1"
proof -
  have f: "Vector3Length (Vector3Subtract (target npc1) (position npc1)) > 1 / 10"
    by (simp add: npc1_length)
  have b: "CheckWallCollision MAZE_WIDTH MAZE_HEIGHT closed_maze (npc_newPos npc1 (1 / 10))"
    by (simp add: npc1_newPos npc1_blocked)
  from f b C10_rejected_move_frame [OF f b, of rngZ]
  show ?thesis by blast
qed

section \<open>The random source is shared\<close>

lemma gen22_direct:
  "generated_walls 2 2 (Initialize 2 2 new_MazeGenerator) rngB (0, 0) = Some [True, False, True, True]"
  by (simp add: generated_walls_def Generate_def gen_loop.simps gen_eval rngB_def)

text \<open>The whole 2x2 maze of the seed \<open>rngB\<close>: the path \<open>(0,0)\<close>, \<open>(1,0)\<close>, \<open>(1,1)\<close>,
  \<open>(0,1)\<close>.\<close>

lemma gen22_maze:
  "generated_walls 2 2 (Initialize 2 2 new_MazeGenerator) rngB (1, 0) = Some [False, True, True, False]"
  "generated_walls 2 2 (Initialize 2 2 new_MazeGenerator) rngB (1, 1) = Some [True, True, False, False]"
  "generated_walls 2 2 (Initialize 2 2 new_MazeGenerator) rngB (0, 1) = Some [True, False, True, True]"
  by (simp_all add: generated_walls_def Generate_def gen_loop.simps gen_eval rngB_def)

lemma gen22_after_spawn:
  "generated_walls 2 2 (Initialize 2 2 new_MazeGenerator) (snd (GetRandomSpawnPosition 2 2 rngB)) (0, 0)
     = Some [False, True, True, True]"
  by (simp add: generated_walls_def Generate_def gen_loop.simps gen_eval rngB_def
      GetRandomSpawnPosition_def)

lemma spawn_direct:
  "fst (GetRandomSpawnPosition 2 2 rngB) = \<lparr>vx = 1, vy = 1 / 4, vz = 0\<rparr>"
  by (simp add: GetRandomSpawnPosition_def rand_def rngB_def CELL_SIZE_def PLAYER_HEIGHT_def)

lemma spawn_after:
  "spawn_after_Generate 2 2 (Initialize 2 2 new_MazeGenerator) rngB
     = Some \<lparr>vx = 0, vy = 1 / 4, vz = 0\<rparr>"
  by (simp add: spawn_after_Generate_def Generate_def gen_loop.simps gen_eval rngB_def
      GetRandomSpawnPosition_def CELL_SIZE_def PLAYER_HEIGHT_def)

text \<open>C6, refuted as stated: with the seed \<open>rngB\<close> on a 2x2 grid, one call of
  GetRandomSpawnPosition before Generate changes the walls Generate gives cell \<open>(0, 0)\<close>, and
  the spawn position drawn after Generate is not the one drawn without it.\<close>

theorem C6_counterexample:
  "generated_walls 2 2 (Initialize 2 2 new_MazeGenerator) (snd (GetRandomSpawnPosition 2 2 rngB)) (0, 0)
     \<noteq> generated_walls 2 2 (Initialize 2 2 new_MazeGenerator) rngB (0, 0) \<and>
   spawn_after_Generate 2 2 (Initialize 2 2 new_MazeGenerator) rngB
     \<noteq> Some (fst (GetRandomSpawnPosition 2 2 rngB))"
  by (simp add: gen22_direct gen22_after_spawn spawn_direct spawn_after)

lemma to_int_half: "0 \<le> a \<Longrightarrow> to_int ((real_of_int a * CELL_SIZE + CELL_SIZE / 2) / CELL_SIZE) = a"
proof -
  assume a: "0 \<le> a"
  have "\<lfloor>real_of_int a + 1 / 2\<rfloor> = a" by linarith
  with a show ?thesis by (simp add: to_int_def CELL_SIZE_def)
qed

text \<open>C6, amended: GetRandomSpawnPosition returns the world-coordinate centre of the cell whose
  indices are the next two draws of the one \<^verbatim>\<open>rand()\<close> sequence, reduced modulo W and H, a
  cell of the grid; it advances that sequence by two draws, and a Generate that follows reads on
  from there.\<close>

theorem C6_spawn_shares_rand:
  "1 \<le> W \<Longrightarrow> 1 \<le> H \<Longrightarrow>
   in_grid W H (int (r 0) mod W, int (r 1) mod H) \<and>
   GetRandomSpawnPosition W H r =
     (\<lparr>vx = real_of_int (int (r 0) mod W) * CELL_SIZE, vy = PLAYER_HEIGHT / 2,
       vz = real_of_int (int (r 1) mod H) * CELL_SIZE\<rparr>, \<lambda>i. r (i + 2)) \<and>
   cell_of (fst (GetRandomSpawnPosition W H r)) = (int (r 0) mod W, int (r 1) mod H) \<and>
   Generate W H m (snd (GetRandomSpawnPosition W H r)) = Generate W H m (\<lambda>i. r (i + 2))"
proof -
  assume W: "1 \<le> W" and H: "1 \<le> H"
  have g: "in_grid W H (int (r 0) mod W, int (r 1) mod H)"
    using W H by (simp add: in_grid_def)
  have s: "GetRandomSpawnPosition W H r =
     (\<lparr>vx = real_of_int (int (r 0) mod W) * CELL_SIZE, vy = PLAYER_HEIGHT / 2,
       vz = real_of_int (int (r 1) mod H) * CELL_SIZE\<rparr>, \<lambda>i. r (i + 2))"
    by (simp add: GetRandomSpawnPosition_def rand_def)
  have c: "cell_of (fst (GetRandomSpawnPosition W H r)) = (int (r 0) mod W, int (r 1) mod H)"
    using g by (simp add: s cell_of_def to_int_half in_grid_def)
  show ?thesis using g s c by simp
qed

theorem C6_spawn_shares_rand_witness:
  "(1::int) \<le> 2 \<and> (1::int) \<le> 2 \<and>
   in_grid 2 2 (int (rngB 0) mod 2, int (rngB 1) mod 2) \<and>
   GetRandomSpawnPosition 2 2 rngB =
     (\<lparr>vx = real_of_int (int (rngB 0) mod 2) * CELL_SIZE, vy = PLAYER_HEIGHT / 2,
       vz = real_of_int (int (rngB 1) mod 2) * CELL_SIZE\<rparr>, \<lambda>i. rngB (i + 2)) \<and>
   cell_of (fst (GetRandomSpawnPosition 2 2 rngB)) = (int (rngB 0) mod 2, int (rngB 1) mod 2) \<and>
   Generate 2 2 (Initialize 2 2 new_MazeGenerator) (snd (GetRandomSpawnPosition 2 2 rngB))
     = Generate 2 2 (Initialize 2 2 new_MazeGenerator) (\<lambda>i. rngB (i + 2))"
proof -
  have h: "(1::int) \<le> 2" by simp
  from h C6_spawn_shares_rand [OF h h, of rngB "Initialize 2 2 new_MazeGenerator"]
  show ?thesis by blast
qed

section \<open>The stack of Generate\<close>

lemma gen_step_select:
  "GetUnvisitedNeighbour W H (grid m) current r = (Some nxt, r') \<Longrightarrow>
   gen_step W H (m, current, r) =
     (m\<lparr>grid := set_visited (RemoveWall (grid m) current nxt) nxt True,
        pathStack := current # pathStack m\<rparr>, nxt, r')"
  by (simp add: gen_step_def)

lemma gen_step_selects_length:
  "selects W H s \<Longrightarrow> length (pathStack (fst (gen_step W H s))) = Suc (length (pathStack (fst s)))"
  by (cases s) (auto simp: selects_def gen_step_def split: prod.splits option.splits)

lemma three_steps_rngA:
  "pathStack (fst (gen_step 4 4 (gen_step 4 4 (gen_step 4 4
       (gen_init (Initialize 4 4 new_MazeGenerator) rngA)))))
    = [(2, 0), (1, 0), (0, 0), (0, 0)]"
  by (simp add: gen_eval rngA_def)

lemma three_steps_rngC:
  "pathStack (fst (gen_step 4 4 (gen_step 4 4 (gen_step 4 4
       (gen_init (Initialize 4 4 new_MazeGenerator) rngC)))))
    = [(2, 0), (1, 0), (0, 0), (0, 0)]"
  by (simp add: gen_eval rngC_def)

lemma two_steps_rngA:
  "fst (snd (gen_step 4 4 (gen_step 4 4 (gen_init (Initialize 4 4 new_MazeGenerator) rngA)))) = (2, 0)"
  by (simp add: gen_eval rngA_def)

lemma third_candidates_rngA:
  "unvisited_neighbours 4 4
     (grid (fst (gen_step 4 4 (gen_step 4 4 (gen_init (Initialize 4 4 new_MazeGenerator) rngA)))))
     (2, 0) = [(2, 1), (3, 0)]"
  by (simp add: gen_eval rngA_def)

text \<open>C7, refuted as stated: on the 4x4 grid, after the picks East, East the current cell is
  \<open>(2, 0)\<close> and a third pick can only be North or East (South is outside the grid); with either
  third pick the stack then holds four entries, not one.\<close>

theorem C7_counterexample:
  "fst (snd (gen_step 4 4 (gen_step 4 4 (gen_init (Initialize 4 4 new_MazeGenerator) rngA)))) = (2, 0) \<and>
   unvisited_neighbours 4 4
     (grid (fst (gen_step 4 4 (gen_step 4 4 (gen_init (Initialize 4 4 new_MazeGenerator) rngA)))))
     (2, 0) = [(2, 1), (3, 0)] \<and>
   length (pathStack (fst (gen_step 4 4 (gen_step 4 4 (gen_step 4 4
       (gen_init (Initialize 4 4 new_MazeGenerator) rngA)))))) \<noteq> 1 \<and>
   length (pathStack (fst (gen_step 4 4 (gen_step 4 4 (gen_step 4 4
       (gen_init (Initialize 4 4 new_MazeGenerator) rngC)))))) \<noteq> 1"
  by (simp add: two_steps_rngA third_candidates_rngA three_steps_rngA three_steps_rngC)

text \<open>C7, amended: an iteration that selects a neighbour pushes the current cell, not the
  neighbour, and makes the neighbour current; Generate has pushed the start cell before the loop,
  so after three selecting iterations on an empty initial stack the depth is 4: the start cell
  and one entry per pick.\<close>

theorem C7_push_current:
  "(GetUnvisitedNeighbour W H (grid m) current r = (Some nxt, r') \<longrightarrow>
      pathStack (fst (gen_step W H (m, current, r))) = current # pathStack m \<and>
      fst (snd (gen_step W H (m, current, r))) = nxt) \<and>
   (pathStack m = [] \<and> selects W H (gen_init m r) \<and> selects W H (gen_step W H (gen_init m r)) \<and>
    selects W H (gen_step W H (gen_step W H (gen_init m r))) \<longrightarrow>
      length (pathStack (fst (gen_step W H (gen_step W H (gen_step W H (gen_init m r)))))) = 4)"
  by (simp add: gen_step_select gen_step_selects_length) (simp add: gen_init_def)

lemma first_pick_rngA:
  "GetUnvisitedNeighbour 4 4 (grid (Initialize 4 4 new_MazeGenerator)) (0, 0) rngA
     = (Some (1, 0), snd (rand rngA))"
  by (simp add: gen_eval rngA_def)

lemma selects_rngA:
  "selects 4 4 (gen_init (Initialize 4 4 new_MazeGenerator) rngA) \<and>
   selects 4 4 (gen_step 4 4 (gen_init (Initialize 4 4 new_MazeGenerator) rngA)) \<and>
   selects 4 4 (gen_step 4 4 (gen_step 4 4 (gen_init (Initialize 4 4 new_MazeGenerator) rngA)))"
  by (simp add: selects_def gen_eval rngA_def)

theorem C7_push_current_witness:
  "GetUnvisitedNeighbour 4 4 (grid (Initialize 4 4 new_MazeGenerator)) (0, 0) rngA
     = (Some (1, 0), snd (rand rngA)) \<and>
   pathStack (fst (gen_step 4 4 (Initialize 4 4 new_MazeGenerator, (0, 0), rngA)))
     = (0, 0) # pathStack (Initialize 4 4 new_MazeGenerator) \<and>
   fst (snd (gen_step 4 4 (Initialize 4 4 new_MazeGenerator, (0, 0), rngA))) = (1, 0) \<and>
   pathStack (Initialize 4 4 new_MazeGenerator) = [] \<and>
   selects 4 4 (gen_init (Initialize 4 4 new_MazeGenerator) rngA) \<and>
   selects 4 4 (gen_step 4 4 (gen_init (Initialize 4 4 new_MazeGenerator) rngA)) \<and>
   selects 4 4 (gen_step 4 4 (gen_step 4 4 (gen_init (Initialize 4 4 new_MazeGenerator) rngA))) \<and>
   length (pathStack (fst (gen_step 4 4 (gen_step 4 4 (gen_step 4 4
       (gen_init (Initialize 4 4 new_MazeGenerator) rngA)))))) = 4"
proof -
  have e: "pathStack (Initialize 4 4 new_MazeGenerator) = []"
    by (simp add: pathStack_Initialize new_MazeGenerator_def)
  from first_pick_rngA selects_rngA e
    C7_push_current [where W = 4 and H = 4 and m = "Initialize 4 4 new_MazeGenerator"
      and current = "(0, 0)" and r = rngA and nxt = "(1, 0)" and r' = "snd (rand rngA)"]
  show ?thesis by blast
qed

section \<open>The grid as a finite set\<close>

lemma in_grid_eq: "{p. in_grid W H p} = {0..<W} \<times> {0..<H}"
  by (auto simp: in_grid_def)

lemma finite_in_grid: "finite {p. in_grid W H p}"
  by (simp add: in_grid_eq)

lemma card_in_grid: "card {p. in_grid W H p} = nat W * nat H"
  by (simp add: in_grid_eq)

section \<open>Frame of the grid updates\<close>

lemma set_wall_fields [simp]:
  "cx (set_wall g p i v q) = cx (g q)"
  "cy (set_wall g p i v q) = cy (g q)"
  "visited (set_wall g p i v q) = visited (g q)"
  "length (walls (set_wall g p i v q)) = length (walls (g q))"
  by (simp_all add: set_wall_def)

lemma set_visited_fields [simp]:
  "cx (set_visited g p v q) = cx (g q)"
  "cy (set_visited g p v q) = cy (g q)"
  "walls (set_visited g p v q) = walls (g q)"
  "visited (set_visited g p v q) = (if q = p then v else visited (g q))"
  by (simp_all add: set_visited_def)

lemma RemoveWall_fields [simp]:
  "cx (RemoveWall g c n q) = cx (g q)"
  "cy (RemoveWall g c n q) = cy (g q)"
  "visited (RemoveWall g c n q) = visited (g q)"
  "length (walls (RemoveWall g c n q)) = length (walls (g q))"
  by (simp_all add: RemoveWall_def Let_def)

lemma wf_cells_RemoveWall: "wf_cells W H g \<Longrightarrow> wf_cells W H (RemoveWall g c n)"
  by (simp add: wf_cells_def)

lemma wf_cells_set_visited: "wf_cells W H g \<Longrightarrow> wf_cells W H (set_visited g p v)"
  by (simp add: wf_cells_def)

lemma wf_cells_Initialize: "wf_cells W H (grid (Initialize W H m))"
  by (simp add: wf_cells_def grid_Initialize new_Cell_def)

section \<open>Neighbour selection\<close>

lemma wf_cellsD:
  "wf_cells W H g \<Longrightarrow> in_grid W H p \<Longrightarrow>
     cx (g p) = fst p \<and> cy (g p) = snd p \<and> length (walls (g p)) = 4"
  unfolding wf_cells_def by blast

lemma unvisited_neighbours_mem:
  assumes "wf_cells W H g" "in_grid W H c" "n \<in> set (unvisited_neighbours W H g c)"
  shows "in_grid W H n \<and> \<not> visited (g n) \<and> adjacent c n"
proof -
  from wf_cellsD [OF assms(1,2)] have c: "cx (g c) = fst c" "cy (g c) = snd c"
    by simp_all
  from assms(3) show ?thesis using assms(2)
    by (auto simp: unvisited_neighbours_def Let_def c in_grid_def adjacent_def facing_def
        split: if_splits)
qed

lemma adjacent_iff:
  "adjacent (a, b) n \<longleftrightarrow> n = (a, b + 1) \<or> n = (a + 1, b) \<or> n = (a, b - 1) \<or> n = (a - 1, b)"
  by (auto simp: adjacent_def facing_def)

lemma unvisited_neighbours_Nil:
  "unvisited_neighbours W H g c = [] \<longleftrightarrow>
     \<not> (cy (g c) + 1 < H \<and> \<not> visited (g (cx (g c), cy (g c) + 1))) \<and>
     \<not> (cx (g c) + 1 < W \<and> \<not> visited (g (cx (g c) + 1, cy (g c)))) \<and>
     \<not> (cy (g c) - 1 \<ge> 0 \<and> \<not> visited (g (cx (g c), cy (g c) - 1))) \<and>
     \<not> (cx (g c) - 1 \<ge> 0 \<and> \<not> visited (g (cx (g c) - 1, cy (g c))))"
  by (simp add: unvisited_neighbours_def Let_def)

lemma unvisited_neighbours_empty:
  assumes "wf_cells W H g" "in_grid W H c"
  shows "unvisited_neighbours W H g c = [] \<longleftrightarrow>
         (\<forall>n. in_grid W H n \<and> adjacent c n \<longrightarrow> visited (g n))"
proof -
  obtain a b where ab: "c = (a, b)" by (cases c)
  from wf_cellsD [OF assms] ab have c: "cx (g (a, b)) = a" "cy (g (a, b)) = b"
    by simp_all
  have in4: "\<And>P. (\<forall>n. in_grid W H n \<and> adjacent (a, b) n \<longrightarrow> P n) \<longleftrightarrow>
     (in_grid W H (a, b + 1) \<longrightarrow> P (a, b + 1)) \<and> (in_grid W H (a + 1, b) \<longrightarrow> P (a + 1, b)) \<and>
     (in_grid W H (a, b - 1) \<longrightarrow> P (a, b - 1)) \<and> (in_grid W H (a - 1, b) \<longrightarrow> P (a - 1, b))"
    unfolding adjacent_iff by blast
  from assms(2) ab have g: "0 \<le> a" "a < W" "0 \<le> b" "b < H" by (simp_all add: in_grid_def)
  show ?thesis unfolding ab in4 unvisited_neighbours_Nil c using g
    by (simp add: in_grid_def) (use g in auto)
qed

lemma GetUnvisitedNeighbour_cases:
  obtains (select) n where "unvisited_neighbours W H g c \<noteq> []"
      "n \<in> set (unvisited_neighbours W H g c)"
      "GetUnvisitedNeighbour W H g c r = (Some n, snd (rand r))"
    | (none) "unvisited_neighbours W H g c = []" "GetUnvisitedNeighbour W H g c r = (None, r)"
proof (cases "unvisited_neighbours W H g c = []")
  case True
  then show ?thesis using none by (simp add: GetUnvisitedNeighbour_def)
next
  case False
  then have "unvisited_neighbours W H g c ! (fst (rand r) mod length (unvisited_neighbours W H g c))
      \<in> set (unvisited_neighbours W H g c)"
    by simp
  moreover have "GetUnvisitedNeighbour W H g c r =
      (Some (unvisited_neighbours W H g c ! (fst (rand r) mod length (unvisited_neighbours W H g c))),
       snd (rand r))"
    using False by (simp add: GetUnvisitedNeighbour_def Let_def case_prod_beta)
  ultimately show ?thesis using False select by blast
qed

section \<open>The loop: one rule for every invariant\<close>

lemma gen_step_cases:
  obtains (select) n where "n \<in> set (unvisited_neighbours W H (grid m) c)"
      "gen_step W H (m, c, r) =
         (m\<lparr>grid := set_visited (RemoveWall (grid m) c n) n True, pathStack := c # pathStack m\<rparr>,
          n, snd (rand r))"
    | (pop) "unvisited_neighbours W H (grid m) c = []"
      "gen_step W H (m, c, r) = (m\<lparr>pathStack := tl (pathStack m)\<rparr>, hd (pathStack m), r)"
proof (cases rule: GetUnvisitedNeighbour_cases [of W H "grid m" c r])
  case (select n)
  then show ?thesis using that(1) [of n] by (simp add: gen_step_def)
next
  case none
  then show ?thesis using that(2) by (simp add: gen_step_def)
qed

lemma card_unvisited_less:
  assumes "in_grid W H n" "\<not> visited (g n)"
    and "\<And>q. visited (g' q) = (q = n \<or> visited (g q))"
  shows "card {p. in_grid W H p \<and> \<not> visited (g' p)} < card {p. in_grid W H p \<and> \<not> visited (g p)}"
proof (rule psubset_card_mono)
  show "finite {p. in_grid W H p \<and> \<not> visited (g p)}"
    using finite_in_grid [of W H] by simp
  show "{p. in_grid W H p \<and> \<not> visited (g' p)} \<subset> {p. in_grid W H p \<and> \<not> visited (g p)}"
    using assms by auto
qed

lemma gen_step_ok:
  assumes "gen_ok W H s" "pathStack (fst s) \<noteq> []"
  shows "gen_ok W H (gen_step W H s) \<and> gen_measure W H (gen_step W H s) < gen_measure W H s"
proof -
  obtain m c r where s: "s = (m, c, r)" by (cases s)
  from assms s have wf: "wf_cells W H (grid m)" and c: "in_grid W H c"
    and st: "\<forall>p \<in> set (pathStack m). in_grid W H p" and ne: "pathStack m \<noteq> []"
    by (simp_all add: gen_ok_def)
  show ?thesis
  proof (cases rule: gen_step_cases [of W H m c r])
    case (select n)
    from unvisited_neighbours_mem [OF wf c select(1)]
    have n: "in_grid W H n" "\<not> visited (grid m n)" by simp_all
    have "card {p. in_grid W H p \<and> \<not> visited (set_visited (RemoveWall (grid m) c n) n True p)}
        < card {p. in_grid W H p \<and> \<not> visited (grid m p)}"
      by (rule card_unvisited_less [where g = "grid m" and n = n]) (use n in auto)
    then show ?thesis using wf c st n
      by (simp add: s select(2) gen_ok_def gen_measure_def wf_cells_RemoveWall wf_cells_set_visited)
  next
    case pop
    from ne obtain a as where as: "pathStack m = a # as" by (cases "pathStack m") auto
    with st wf show ?thesis
      by (simp add: s pop(2) gen_ok_def gen_measure_def)
  qed
qed

lemma gen_loop_rule:
  assumes "gen_ok W H s" "P s"
    and step: "\<And>t. gen_ok W H t \<Longrightarrow> P t \<Longrightarrow> pathStack (fst t) \<noteq> [] \<Longrightarrow> P (gen_step W H t)"
  shows "\<exists>s'. gen_loop W H s = Some s' \<and> gen_ok W H s' \<and> P s' \<and> pathStack (fst s') = []"
  using assms(1,2)
proof (induction "gen_measure W H s" arbitrary: s rule: less_induct)
  case less
  show ?case
  proof (cases "pathStack (fst s) = []")
    case True
    with less.prems show ?thesis by (subst gen_loop.simps) simp
  next
    case False
    from gen_step_ok [OF less.prems(1) False] step [OF less.prems False]
    have "\<exists>s'. gen_loop W H (gen_step W H s) = Some s' \<and> gen_ok W H s' \<and> P s' \<and> pathStack (fst s') = []"
      by (intro less.hyps) simp_all
    with False show ?thesis by (subst gen_loop.simps) simp
  qed
qed

lemma gen_init_ok:
  assumes "1 \<le> W" "1 \<le> H" "pathStack m = []"
  shows "gen_ok W H (gen_init (Initialize W H m) r)"
  using assms
  by (simp add: gen_ok_def gen_init_def wf_cells_Initialize wf_cells_set_visited
      pathStack_Initialize in_grid_def)

lemma Generate_rule:
  assumes "1 \<le> W" "1 \<le> H" "pathStack m = []"
    and "P (gen_init (Initialize W H m) r)"
    and "\<And>t. gen_ok W H t \<Longrightarrow> P t \<Longrightarrow> pathStack (fst t) \<noteq> [] \<Longrightarrow> P (gen_step W H t)"
  shows "\<exists>m' c' r'. Generate W H (Initialize W H m) r = Some (m', r') \<and>
           gen_ok W H (m', c', r') \<and> P (m', c', r') \<and> pathStack m' = []"
proof -
  from gen_loop_rule [of W H "gen_init (Initialize W H m) r" P,
      OF gen_init_ok [OF assms(1-3)] assms(4) assms(5)]
  obtain s' where s': "gen_loop W H (gen_init (Initialize W H m) r) = Some s'"
    "gen_ok W H s'" "P s'" "pathStack (fst s') = []"
    by blast
  obtain m' c' r' where "s' = (m', c', r')" by (cases s')
  with s' have "Generate W H (Initialize W H m) r = Some (m', r') \<and>
      gen_ok W H (m', c', r') \<and> P (m', c', r') \<and> pathStack m' = []"
    by (simp add: Generate_def)
  then show ?thesis by blast
qed

section \<open>What RemoveWall does to the flags of two adjacent cells\<close>

lemma facing_cases:
  assumes "facing (a, b) n = Some i"
  obtains "i = 0" "n = (a, b + 1)" | "i = 1" "n = (a + 1, b)"
    | "i = 2" "n = (a, b - 1)" | "i = 3" "n = (a - 1, b)"
  using assms by (auto simp: facing_def split: if_splits)

lemma facing_opposite: "facing p q = Some i \<Longrightarrow> facing q p = Some (opposite i)"
  by (cases p) (auto simp: facing_def opposite_def split: if_splits)

lemma facing_inj: "facing p q = Some i \<Longrightarrow> facing p q' = Some i \<Longrightarrow> q = q'"
  by (cases p) (auto simp: facing_def split: if_splits)

lemma facing_inj2: "facing p q = Some i \<Longrightarrow> facing p' q = Some i \<Longrightarrow> p = p'"
  by (cases p; cases p') (auto simp: facing_def split: if_splits)

lemma facing_less: "facing p q = Some i \<Longrightarrow> i < 4"
  by (auto simp: facing_def split: if_splits)

lemma facing_neq: "facing p q = Some i \<Longrightarrow> p \<noteq> q"
  by (cases p) (auto simp: facing_def split: if_splits)

lemma walls_set_wall:
  "k < length (walls (g p)) \<Longrightarrow>
   walls (set_wall g c i v p) ! k = (if p = c \<and> k = i then v else walls (g p) ! k)"
  by (auto simp add: set_wall_def nth_list_update)

lemma walls_RemoveWall:
  assumes wf: "wf_cells W H g" and c: "in_grid W H c" and n: "in_grid W H n"
    and f: "facing c n = Some i" and p: "in_grid W H p" and k: "k < 4"
  shows "walls (RemoveWall g c n p) ! k =
     (walls (g p) ! k \<and> \<not> (p = c \<and> k = i) \<and> \<not> (p = n \<and> k = opposite i))"
proof -
  obtain a b where ab: "c = (a, b)" by (cases c)
  from wf_cellsD [OF wf c] ab have cc: "cx (g (a, b)) = a" "cy (g (a, b)) = b" by simp_all
  from wf_cellsD [OF wf p] k have kp: "k < length (walls (g p))" by simp
  from f ab have f': "facing (a, b) n = Some i" by simp
  show ?thesis
  proof (cases rule: facing_cases [OF f'])
    case 1
    with wf_cellsD [OF wf n] have "cx (g (a, b + 1)) = a" "cy (g (a, b + 1)) = b + 1" by simp_all
    then show ?thesis using kp
      by (auto simp add: ab 1 RemoveWall_def Let_def cc walls_set_wall opposite_def)
  next
    case 2
    with wf_cellsD [OF wf n] have "cx (g (a + 1, b)) = a + 1" "cy (g (a + 1, b)) = b" by simp_all
    then show ?thesis using kp
      by (auto simp add: ab 2 RemoveWall_def Let_def cc walls_set_wall opposite_def)
  next
    case 3
    with wf_cellsD [OF wf n] have "cx (g (a, b - 1)) = a" "cy (g (a, b - 1)) = b - 1" by simp_all
    then show ?thesis using kp
      by (auto simp add: ab 3 RemoveWall_def Let_def cc walls_set_wall opposite_def)
  next
    case 4
    with wf_cellsD [OF wf n] have "cx (g (a - 1, b)) = a - 1" "cy (g (a - 1, b)) = b" by simp_all
    then show ?thesis using kp
      by (auto simp add: ab 4 RemoveWall_def Let_def cc walls_set_wall opposite_def)
  qed
qed

section \<open>The rim keeps its walls\<close>

lemma grid_Initialize_in:
  "in_grid W H p \<Longrightarrow> grid (Initialize W H m) p = new_Cell (fst p) (snd p)"
  by (simp add: grid_Initialize)

lemma walls_Initialize:
  "in_grid W H p \<Longrightarrow> k < 4 \<Longrightarrow> walls (grid (Initialize W H m) p) ! k"
  by (auto simp add: grid_Initialize_in new_Cell_def less_Suc_eq numeral_eq_Suc)

lemma perimeter_walls_iff:
  "perimeter_walls W H g \<longleftrightarrow>
     (\<forall>p. in_grid W H p \<longrightarrow>
        (snd p = H - 1 \<longrightarrow> walls (g p) ! 0) \<and> (fst p = W - 1 \<longrightarrow> walls (g p) ! 1) \<and>
        (snd p = 0 \<longrightarrow> walls (g p) ! 2) \<and> (fst p = 0 \<longrightarrow> walls (g p) ! 3))"
  by (auto simp: perimeter_walls_def)

lemma perimeter_walls_Initialize: "perimeter_walls W H (grid (Initialize W H m))"
  unfolding perimeter_walls_iff by (simp add: walls_Initialize)

lemma facing_inside:
  assumes "in_grid W H c" "in_grid W H n" "facing c n = Some i"
  shows "\<not> (snd c = H - 1 \<and> i = 0)" "\<not> (fst c = W - 1 \<and> i = 1)"
    "\<not> (snd c = 0 \<and> i = 2)" "\<not> (fst c = 0 \<and> i = 3)"
proof -
  obtain a b where ab: "c = (a, b)" by (cases c)
  from assms(3) ab have f: "facing (a, b) n = Some i" by simp
  from assms(1,2) ab have
    "\<not> (b = H - 1 \<and> i = 0) \<and> \<not> (a = W - 1 \<and> i = 1) \<and> \<not> (b = 0 \<and> i = 2) \<and> \<not> (a = 0 \<and> i = 3)"
    by (cases rule: facing_cases [OF f]) (auto simp: in_grid_def)
  with ab show "\<not> (snd c = H - 1 \<and> i = 0)" "\<not> (fst c = W - 1 \<and> i = 1)"
    "\<not> (snd c = 0 \<and> i = 2)" "\<not> (fst c = 0 \<and> i = 3)"
    by simp_all
qed

lemma perimeter_walls_RemoveWall:
  assumes wf: "wf_cells W H g" and c: "in_grid W H c" and n: "in_grid W H n"
    and adj: "adjacent c n" and per: "perimeter_walls W H g"
  shows "perimeter_walls W H (RemoveWall g c n)"
proof -
  from adj obtain i where f: "facing c n = Some i" by (auto simp: adjacent_def)
  note w = walls_RemoveWall [OF wf c n f]
  note fc = facing_inside [OF c n f]
  note fn = facing_inside [OF n c facing_opposite [OF f]]
  show ?thesis
    unfolding perimeter_walls_iff
  proof (intro allI impI conjI)
    fix p assume p: "in_grid W H p" and r: "snd p = H - 1"
    from per p r have "walls (g p) ! 0" unfolding perimeter_walls_iff by blast
    with fc(1) fn(1) r show "walls (RemoveWall g c n p) ! 0" by (auto simp add: w [OF p])
  next
    fix p assume p: "in_grid W H p" and r: "fst p = W - 1"
    from per p r have "walls (g p) ! 1" unfolding perimeter_walls_iff by blast
    with fc(2) fn(2) r show "walls (RemoveWall g c n p) ! 1" by (auto simp add: w [OF p])
  next
    fix p assume p: "in_grid W H p" and r: "snd p = 0"
    from per p r have "walls (g p) ! 2" unfolding perimeter_walls_iff by blast
    with fc(3) fn(3) r show "walls (RemoveWall g c n p) ! 2" by (auto simp add: w [OF p])
  next
    fix p assume p: "in_grid W H p" and r: "fst p = 0"
    from per p r have "walls (g p) ! 3" unfolding perimeter_walls_iff by blast
    with fc(4) fn(4) r show "walls (RemoveWall g c n p) ! 3" by (auto simp add: w [OF p])
  qed
qed

lemma perimeter_walls_step:
  assumes ok: "gen_ok W H t" and per: "perimeter_walls W H (grid (fst t))"
  shows "perimeter_walls W H (grid (fst (gen_step W H t)))"
proof -
  obtain m c r where t: "t = (m, c, r)" by (cases t)
  from ok t have wf: "wf_cells W H (grid m)" and c: "in_grid W H c" by (simp_all add: gen_ok_def)
  show ?thesis
  proof (cases rule: gen_step_cases [of W H m c r])
    case (select n)
    from unvisited_neighbours_mem [OF wf c select(1)]
    have n: "in_grid W H n" "adjacent c n" by simp_all
    from perimeter_walls_RemoveWall [OF wf c n] per t
    have "perimeter_walls W H (RemoveWall (grid m) c n)" by simp
    then show ?thesis by (simp add: t select(2) perimeter_walls_def)
  next
    case pop
    with per t show ?thesis by simp
  qed
qed

text \<open>C9: after Initialize and Generate every cell on the rim of the grid still has its
  outward wall: flag 0 in the row \<open>y = H - 1\<close>, flag 1 in the column \<open>x = W - 1\<close>, flag 2 in the
  row \<open>y = 0\<close> and flag 3 in the column \<open>x = 0\<close>. Generate returns, and leaves the stack
  empty as it found it.\<close>

theorem C9_perimeter_kept:
  assumes "1 \<le> W" "1 \<le> H" "pathStack m = []"
  shows "\<exists>m' r'. Generate W H (Initialize W H m) r = Some (m', r') \<and>
           perimeter_walls W H (grid m') \<and> pathStack m' = []"
proof -
  have "\<exists>m' c' r'. Generate W H (Initialize W H m) r = Some (m', r') \<and>
      gen_ok W H (m', c', r') \<and> perimeter_walls W H (grid (fst (m', c', r'))) \<and> pathStack m' = []"
  proof (rule Generate_rule [OF assms])
    show "perimeter_walls W H (grid (fst (gen_init (Initialize W H m) r)))"
      using perimeter_walls_Initialize [of W H m]
      by (simp add: gen_init_def perimeter_walls_def)
  qed (rule perimeter_walls_step)
  then show ?thesis by auto
qed

theorem C9_perimeter_kept_witness:
  "1 \<le> MAZE_WIDTH \<and> 1 \<le> MAZE_HEIGHT \<and> pathStack new_MazeGenerator = [] \<and>
   (\<exists>m' r'. Generate MAZE_WIDTH MAZE_HEIGHT (Initialize MAZE_WIDTH MAZE_HEIGHT new_MazeGenerator) rngA
        = Some (m', r') \<and>
      perimeter_walls MAZE_WIDTH MAZE_HEIGHT (grid m') \<and> pathStack m' = [])"
proof -
  have w: "1 \<le> MAZE_WIDTH" and h: "1 \<le> MAZE_HEIGHT" and e: "pathStack new_MazeGenerator = []"
    by (simp_all add: MAZE_WIDTH_def MAZE_HEIGHT_def new_MazeGenerator_def)
  from w h e C9_perimeter_kept [OF w h e, of rngA] show ?thesis by blast
qed

section \<open>Both sides of a wall\<close>

lemma wall_symmetric_Initialize: "wall_symmetric W H (grid (Initialize W H m))"
  using facing_less by (auto simp add: wall_symmetric_def walls_Initialize)

lemma wall_symmetric_RemoveWall:
  assumes wf: "wf_cells W H g" and c: "in_grid W H c" and n: "in_grid W H n"
    and adj: "adjacent c n" and sym: "wall_symmetric W H g"
  shows "wall_symmetric W H (RemoveWall g c n)"
proof -
  from adj obtain i0 where f: "facing c n = Some i0" by (auto simp: adjacent_def)
  note w = walls_RemoveWall [OF wf c n f]
  show ?thesis
    unfolding wall_symmetric_def
  proof (intro allI impI, elim conjE)
    fix p q i j
    assume p: "in_grid W H p" and q: "in_grid W H q"
      and pq: "facing p q = Some i" and qp: "facing q p = Some j"
    from facing_opposite [OF pq] qp have j: "j = opposite i" by simp
    from sym p q pq qp have old: "(\<not> walls (g p) ! i) = (\<not> walls (g q) ! j)"
      unfolding wall_symmetric_def by blast
    have a: "(p = c \<and> i = i0) = (q = n \<and> j = opposite i0)"
      using pq qp f facing_opposite [OF f] facing_inj facing_inj2 j by (metis option.inject)
    have b: "(p = n \<and> i = opposite i0) = (q = c \<and> j = i0)"
      using pq qp f facing_opposite [OF f] facing_inj facing_inj2 j by (metis option.inject)
    note e1 = w [OF p facing_less [OF pq]] and e2 = w [OF q facing_less [OF qp]]
    show "(\<not> walls (RemoveWall g c n p) ! i) = (\<not> walls (RemoveWall g c n q) ! j)"
      using old a b unfolding e1 e2 by blast
  qed
qed

lemma RemoveWall_clears:
  assumes wf: "wf_cells W H g" and p: "in_grid W H p" and q: "in_grid W H q"
    and pq: "facing p q = Some i" and qp: "facing q p = Some j"
  shows "\<not> walls (RemoveWall g p q p) ! i \<and> \<not> walls (RemoveWall g p q q) ! j"
proof -
  from facing_opposite [OF pq] qp have j: "j = opposite i" by simp
  from walls_RemoveWall [OF wf p q pq p facing_less [OF pq]]
    walls_RemoveWall [OF wf p q pq q facing_less [OF qp]] j
  show ?thesis by simp
qed

lemma wall_symmetric_RemoveWalls:
  "adjacent_pairs W H ps \<Longrightarrow> wf_cells W H g \<Longrightarrow> wall_symmetric W H g \<Longrightarrow>
   wall_symmetric W H (RemoveWalls g ps)"
proof (induction ps arbitrary: g)
  case Nil
  then show ?case by (simp add: RemoveWalls_def)
next
  case (Cons pq ps)
  from Cons.prems(1) have pq: "in_grid W H (fst pq)" "in_grid W H (snd pq)"
    "adjacent (fst pq) (snd pq)" and ps: "adjacent_pairs W H ps"
    by (simp_all add: adjacent_pairs_def)
  from wall_symmetric_RemoveWall [OF Cons.prems(2) pq Cons.prems(3)]
    wf_cells_RemoveWall [OF Cons.prems(2)]
  have "wall_symmetric W H (RemoveWalls (RemoveWall g (fst pq) (snd pq)) ps)"
    by (intro Cons.IH [OF ps]) simp_all
  then show ?case by (simp add: RemoveWalls_def)
qed

lemma wall_symmetric_step:
  assumes ok: "gen_ok W H t" and sym: "wall_symmetric W H (grid (fst t))"
  shows "wall_symmetric W H (grid (fst (gen_step W H t)))"
proof -
  obtain m c r where t: "t = (m, c, r)" by (cases t)
  from ok t have wf: "wf_cells W H (grid m)" and c: "in_grid W H c" by (simp_all add: gen_ok_def)
  show ?thesis
  proof (cases rule: gen_step_cases [of W H m c r])
    case (select n)
    from unvisited_neighbours_mem [OF wf c select(1)]
    have n: "in_grid W H n" "adjacent c n" by simp_all
    from wall_symmetric_RemoveWall [OF wf c n] sym t
    have "wall_symmetric W H (RemoveWall (grid m) c n)" by simp
    then show ?thesis by (simp add: t select(2) wall_symmetric_def)
  next
    case pop
    with sym t show ?thesis by simp
  qed
qed

lemma wall_symmetric_Generate:
  assumes "1 \<le> W" "1 \<le> H" "pathStack m = []"
  shows "\<exists>m' r'. Generate W H (Initialize W H m) r = Some (m', r') \<and>
           wall_symmetric W H (grid m')"
proof -
  have "\<exists>m' c' r'. Generate W H (Initialize W H m) r = Some (m', r') \<and>
      gen_ok W H (m', c', r') \<and> wall_symmetric W H (grid (fst (m', c', r'))) \<and> pathStack m' = []"
  proof (rule Generate_rule [OF assms])
    show "wall_symmetric W H (grid (fst (gen_init (Initialize W H m) r)))"
      using wall_symmetric_Initialize [of W H m]
      by (simp add: gen_init_def wall_symmetric_def)
  qed (rule wall_symmetric_step)
  then show ?thesis by auto
qed

text \<open>C2, refuted as stated: one RemoveWall call on the diagonal pair \<open>(1, 1)\<close>, \<open>(0, 0)\<close> of a
  freshly initialised 2x2 grid clears the right flag of \<open>(0, 0)\<close> and leaves the left flag of
  its neighbour \<open>(1, 0)\<close> set.\<close>

theorem C2_counterexample:
  "\<not> wall_symmetric 2 2 (RemoveWalls (grid (Initialize 2 2 new_MazeGenerator)) [((1, 1), (0, 0))])"
proof
  assume "wall_symmetric 2 2 (RemoveWalls (grid (Initialize 2 2 new_MazeGenerator)) [((1, 1), (0, 0))])"
  then have "in_grid 2 2 (0, 0) \<and> in_grid 2 2 (1, 0) \<and> facing (0, 0) (1, 0) = Some 1 \<and>
      facing (1, 0) (0, 0) = Some 3 \<longrightarrow>
    (\<not> walls (RemoveWalls (grid (Initialize 2 2 new_MazeGenerator)) [((1, 1), (0, 0))] (0, 0)) ! 1)
    = (\<not> walls (RemoveWalls (grid (Initialize 2 2 new_MazeGenerator)) [((1, 1), (0, 0))] (1, 0)) ! 3)"
    unfolding wall_symmetric_def by blast
  then show False
    by (simp add: RemoveWalls_def facing_def gen_eval)
qed

text \<open>C2, amended: after Initialize and any sequence of RemoveWall calls each made on two
  orthogonally adjacent cells of the grid, and in particular after Generate (which returns), two
  adjacent cells agree on the wall between them; and each RemoveWall on an adjacent pair clears
  the flag of either cell on the side facing the other.\<close>

theorem C2_wall_symmetry:
  "adjacent_pairs W H ps \<Longrightarrow>
   wall_symmetric W H (RemoveWalls (grid (Initialize W H m)) ps) \<and>
   (1 \<le> W \<and> 1 \<le> H \<and> pathStack m = [] \<longrightarrow>
      (\<exists>m' r'. Generate W H (Initialize W H m) r = Some (m', r') \<and> wall_symmetric W H (grid m'))) \<and>
   (\<forall>g p q i j. wf_cells W H g \<and> in_grid W H p \<and> in_grid W H q \<and>
        facing p q = Some i \<and> facing q p = Some j \<longrightarrow>
      \<not> walls (RemoveWall g p q p) ! i \<and> \<not> walls (RemoveWall g p q q) ! j)"
  using wall_symmetric_RemoveWalls [OF _ wf_cells_Initialize wall_symmetric_Initialize, of W H ps m]
    wall_symmetric_Generate [of W H m r] RemoveWall_clears [of W H]
  by blast

theorem C2_wall_symmetry_witness:
  "adjacent_pairs MAZE_WIDTH MAZE_HEIGHT [((0, 0), (1, 0)), ((1, 1), (1, 0))] \<and>
   wall_symmetric MAZE_WIDTH MAZE_HEIGHT
     (RemoveWalls (grid (Initialize MAZE_WIDTH MAZE_HEIGHT new_MazeGenerator))
        [((0, 0), (1, 0)), ((1, 1), (1, 0))]) \<and>
   1 \<le> MAZE_WIDTH \<and> 1 \<le> MAZE_HEIGHT \<and> pathStack new_MazeGenerator = [] \<and>
   (\<exists>m' r'. Generate MAZE_WIDTH MAZE_HEIGHT (Initialize MAZE_WIDTH MAZE_HEIGHT new_MazeGenerator) rngA
        = Some (m', r') \<and> wall_symmetric MAZE_WIDTH MAZE_HEIGHT (grid m')) \<and>
   wf_cells MAZE_WIDTH MAZE_HEIGHT closed_maze \<and>
   in_grid MAZE_WIDTH MAZE_HEIGHT (0, 0) \<and> in_grid MAZE_WIDTH MAZE_HEIGHT (1, 0) \<and>
   facing (0, 0) (1, 0) = Some 1 \<and> facing (1, 0) (0, 0) = Some 3 \<and>
   \<not> walls (RemoveWall closed_maze (0, 0) (1, 0) (0, 0)) ! 1 \<and>
   \<not> walls (RemoveWall closed_maze (0, 0) (1, 0) (1, 0)) ! 3"
proof -
  have a: "adjacent_pairs MAZE_WIDTH MAZE_HEIGHT [((0, 0), (1, 0)), ((1, 1), (1, 0))]"
    by (simp add: adjacent_pairs_def adjacent_def facing_def in_grid_def MAZE_WIDTH_def MAZE_HEIGHT_def)
  have w: "1 \<le> MAZE_WIDTH" and h: "1 \<le> MAZE_HEIGHT" and e: "pathStack new_MazeGenerator = []"
    by (simp_all add: MAZE_WIDTH_def MAZE_HEIGHT_def new_MazeGenerator_def)
  have wf: "wf_cells MAZE_WIDTH MAZE_HEIGHT closed_maze"
    by (simp add: closed_maze_def wf_cells_Initialize)
  have g: "in_grid MAZE_WIDTH MAZE_HEIGHT (0, 0)" "in_grid MAZE_WIDTH MAZE_HEIGHT (1, 0)"
    by (simp_all add: in_grid_def MAZE_WIDTH_def MAZE_HEIGHT_def)
  have f: "facing (0, 0) (1, 0) = Some 1" "facing (1, 0) (0, 0) = Some 3"
    by (simp_all add: facing_def)
  from a w h e wf g f
    C2_wall_symmetry [OF a, of new_MazeGenerator rngA]
  show ?thesis by blast
qed

section \<open>Passages\<close>

lemma opposite_opposite: "i < 4 \<Longrightarrow> opposite (opposite i) = i"
  unfolding opposite_def by presburger

lemma passage_iff:
  "passage W H g p q \<longleftrightarrow>
     in_grid W H p \<and> in_grid W H q \<and>
     (\<exists>i. facing p q = Some i \<and> \<not> walls (g p) ! i \<and> \<not> walls (g q) ! opposite i)"
  by (cases "facing p q") (simp_all add: passage_def)

lemma passage_sym:
  assumes "passage W H g p q"
  shows "passage W H g q p"
proof -
  from assms obtain i where i: "in_grid W H p" "in_grid W H q" "facing p q = Some i"
    "\<not> walls (g p) ! i" "\<not> walls (g q) ! opposite i"
    unfolding passage_iff by blast
  from i(4) opposite_opposite [OF facing_less [OF i(3)]]
  have "\<not> walls (g p) ! opposite (opposite i)" by simp
  with i facing_opposite [OF i(3)] show ?thesis unfolding passage_iff by blast
qed

lemma passage_neq: "passage W H g p q \<Longrightarrow> p \<noteq> q"
  unfolding passage_iff using facing_neq by blast

lemma passage_in_grid: "passage W H g p q \<Longrightarrow> in_grid W H p \<and> in_grid W H q"
  by (simp add: passage_def)

lemma passage_visited:
  assumes "\<forall>p k. in_grid W H p \<and> \<not> visited (g p) \<and> k < 4 \<longrightarrow> walls (g p) ! k"
    and "passage W H g p q"
  shows "visited (g p) \<and> visited (g q)"
proof -
  from assms(2) obtain i where i: "facing p q = Some i" "\<not> walls (g p) ! i"
    "\<not> walls (g q) ! opposite i" "in_grid W H p" "in_grid W H q"
    unfolding passage_iff by blast
  have "opposite i < 4" by (simp add: opposite_def)
  with assms(1) i facing_less [OF i(1)] show ?thesis by blast
qed

text \<open>A selecting iteration adds the passage between current and the neighbour, and no other.\<close>

lemma passage_select:
  assumes wf: "wf_cells W H g" and c: "in_grid W H c" and n: "in_grid W H n"
    and adj: "adjacent c n"
  shows "passage W H (set_visited (RemoveWall g c n) n True) p q \<longleftrightarrow>
         passage W H g p q \<or> (p = c \<and> q = n) \<or> (p = n \<and> q = c)"
proof -
  from adj obtain i0 where f: "facing c n = Some i0" by (auto simp: adjacent_def)
  note nc = facing_opposite [OF f]
  show ?thesis
  proof (cases "in_grid W H p \<and> in_grid W H q \<and> facing p q \<noteq> None")
    case False
    then have "\<not> passage W H (set_visited (RemoveWall g c n) n True) p q" "\<not> passage W H g p q"
      unfolding passage_iff by blast+
    moreover from False c n f nc have "\<not> (p = c \<and> q = n)" "\<not> (p = n \<and> q = c)" by auto
    ultimately show ?thesis by blast
  next
    case True
    then obtain i where p: "in_grid W H p" and q: "in_grid W H q" and pq: "facing p q = Some i"
      by auto
    note qp = facing_opposite [OF pq]
    have o: "opposite i < 4" by (simp add: opposite_def)
    note e1 = walls_RemoveWall [OF wf c n f p facing_less [OF pq]]
      and e2 = walls_RemoveWall [OF wf c n f q o]
    have a: "(p = c \<and> i = i0) = (p = c \<and> q = n)"
      using pq f facing_inj by (metis option.inject)
    have b: "(p = n \<and> i = opposite i0) = (p = n \<and> q = c)"
      using pq nc facing_inj by (metis option.inject)
    have a': "(q = n \<and> opposite i = opposite i0) = (p = c \<and> q = n)"
      using qp nc facing_inj by (metis option.inject)
    have b': "(q = c \<and> opposite i = i0) = (p = n \<and> q = c)"
      using qp f facing_inj by (metis option.inject)
    have L: "passage W H (set_visited (RemoveWall g c n) n True) p q =
        (\<not> (walls (g p) ! i \<and> \<not> (p = c \<and> q = n) \<and> \<not> (p = n \<and> q = c)) \<and>
         \<not> (walls (g q) ! opposite i \<and> \<not> (p = n \<and> q = c) \<and> \<not> (p = c \<and> q = n)))"
      unfolding passage_iff using p q by (simp add: pq e1 e2 a b a' b')
    have R: "passage W H g p q = (\<not> walls (g p) ! i \<and> \<not> walls (g q) ! opposite i)"
      unfolding passage_iff using p q by (simp add: pq)
    show ?thesis unfolding L R by blast
  qed
qed

section \<open>Counting the open pairs\<close>

lemma filter_one_more:
  assumes "distinct xs" "e \<in> set xs" "\<not> P e" "\<forall>x \<in> set xs. P' x = (P x \<or> x = e)"
  shows "length (filter P' xs) = Suc (length (filter P xs))"
  using assms
proof (induction xs)
  case Nil
  then show ?case by simp
next
  case (Cons x xs)
  show ?case
  proof (cases "x = e")
    case True
    with Cons.prems have "e \<notin> set xs" "\<forall>y \<in> set xs. P' y = P y" by auto
    then have "filter P' xs = filter P xs" by (simp cong: filter_cong)
    with True Cons.prems show ?thesis by simp
  next
    case False
    with Cons.prems have "length (filter P' xs) = Suc (length (filter P xs))"
      by (intro Cons.IH) auto
    with False Cons.prems show ?thesis by simp
  qed
qed

lemma distinct_all_pairs: "distinct (all_pairs W H)"
  unfolding all_pairs_def
  by (auto simp: distinct_map distinct_product inj_on_def)

lemma set_all_pairs:
  "set (all_pairs W H) =
     {(p, q). in_grid W H p \<and> in_grid W H q \<and> (q = (fst p + 1, snd p) \<or> q = (fst p, snd p + 1))}"
  unfolding all_pairs_def in_grid_def
  apply (simp add: image_Un)
  apply (rule set_eqI)
  apply (simp add: image_iff split_paired_all)
  apply presburger
  done

section \<open>Trees built by visiting\<close>

lemma tree_order_cong:
  "(\<forall>p \<in> set ord. \<forall>q \<in> set ord. passage W H g' p q = passage W H g p q) \<Longrightarrow>
   tree_order W H g' ord = tree_order W H g ord"
proof (induction ord)
  case Nil
  then show ?case by simp
next
  case (Cons c rest)
  then have "tree_order W H g' rest = tree_order W H g rest" by simp
  moreover from Cons.prems
  have "\<And>q. (q \<in> set rest \<and> passage W H g' c q) = (q \<in> set rest \<and> passage W H g c q)"
    by auto
  ultimately show ?case by simp
qed

lemma tree_reachable:
  "tree_order W H g ord \<Longrightarrow> ord \<noteq> [] \<Longrightarrow> last ord = (0, 0) \<Longrightarrow> p \<in> set ord \<Longrightarrow>
   reachable W H g p"
proof (induction ord arbitrary: p)
  case Nil
  then show ?case by simp
next
  case (Cons c rest)
  show ?case
  proof (cases "rest = []")
    case True
    with Cons.prems show ?thesis by (simp add: reachable.start)
  next
    case False
    with Cons.prems have rest: "tree_order W H g rest" "last rest = (0, 0)" by simp_all
    show ?thesis
    proof (cases "p = c")
      case True
      from Cons.prems(1) False obtain q where q: "q \<in> set rest" "passage W H g c q" by auto
      from Cons.IH [OF rest(1) False rest(2) q(1)] passage_sym [OF q(2)] True
      show ?thesis by (auto intro: reachable.step)
    next
      case False
      with Cons.prems have "p \<in> set rest" by simp
      from Cons.IH [OF rest(1) \<open>rest \<noteq> []\<close> rest(2) this] show ?thesis .
    qed
  qed
qed

lemma cycle_indices:
  assumes "3 \<le> k" "i < k"
  shows "Suc i mod k < k" "(i + k - 1) mod k < k" "Suc i mod k \<noteq> i" "(i + k - 1) mod k \<noteq> i"
    "Suc i mod k \<noteq> (i + k - 1) mod k" "Suc ((i + k - 1) mod k) mod k = i"
proof -
  have s: "Suc i mod k = (if Suc i = k then 0 else Suc i)"
    using assms by (auto simp: mod_Suc)
  have p: "(i + k - 1) mod k = (if i = 0 then k - 1 else i - 1)"
  proof (cases "i = 0")
    case True
    with assms show ?thesis by simp
  next
    case False
    then have "(i + k - 1) mod k = ((i - 1) + k) mod k" by simp
    also have "\<dots> = (i - 1) mod k" by simp
    also have "\<dots> = i - 1" using assms by simp
    finally show ?thesis using False by simp
  qed
  show "Suc i mod k < k" "(i + k - 1) mod k < k" using assms by simp_all
  show "Suc i mod k \<noteq> i" "(i + k - 1) mod k \<noteq> i" "Suc i mod k \<noteq> (i + k - 1) mod k"
    unfolding s p using assms by (auto split: if_splits)
  show "Suc ((i + k - 1) mod k) mod k = i"
    unfolding p using assms by (auto simp: mod_Suc)
qed

lemma tree_acyclic:
  "tree_order W H g ord \<Longrightarrow> distinct ord \<Longrightarrow> set cs \<subseteq> set ord \<Longrightarrow> \<not> cycle W H g cs"
proof (induction ord)
  case Nil
  then show ?case by (auto simp: cycle_def)
next
  case (Cons c rest)
  show ?case
  proof
    assume cyc: "cycle W H g cs"
    then have k: "3 \<le> length cs" and d: "distinct cs"
      and e: "\<And>i. i < length cs \<Longrightarrow> passage W H g (cs ! i) (cs ! (Suc i mod length cs))"
      by (simp_all add: cycle_def)
    show False
    proof (cases "c \<in> set cs")
      case False
      with Cons.prems have "set cs \<subseteq> set rest" by auto
      with Cons.IH Cons.prems cyc show False by simp
    next
      case True
      then obtain i where i: "i < length cs" "cs ! i = c" by (auto simp: in_set_conv_nth)
      let ?j = "Suc i mod length cs" and ?h = "(i + length cs - 1) mod length cs"
      note ix = cycle_indices [OF k i(1)]
      from e [OF i(1)] i(2) have pj: "passage W H g c (cs ! ?j)" by simp
      from e [OF ix(2)] ix(6) i(2) have "passage W H g (cs ! ?h) c" by simp
      then have ph: "passage W H g c (cs ! ?h)" by (rule passage_sym)
      from d ix i have ne: "cs ! ?j \<noteq> c" "cs ! ?h \<noteq> c" "cs ! ?j \<noteq> cs ! ?h"
        by (auto simp: nth_eq_iff_index_eq)
      from ix have "cs ! ?j \<in> set cs" "cs ! ?h \<in> set cs" by simp_all
      with Cons.prems(3) ne have mem: "cs ! ?j \<in> set rest" "cs ! ?h \<in> set rest" by auto
      then have "rest \<noteq> []" by auto
      with Cons.prems(1) have "\<exists>!q. q \<in> set rest \<and> passage W H g c q" by simp
      with mem pj ph have "cs ! ?j = cs ! ?h" by blast
      with ne show False by simp
    qed
  qed
qed

section \<open>When nothing is left to visit, everything is visited\<close>

lemma all_visited:
  assumes wf: "wf_cells W H g" and o: "visited (g (0, 0))"
    and dn: "\<forall>p. in_grid W H p \<and> visited (g p) \<longrightarrow> unvisited_neighbours W H g p = []"
    and p: "in_grid W H (a, b)"
  shows "visited (g (a, b))"
proof -
  have nb: "\<And>p n. in_grid W H p \<Longrightarrow> visited (g p) \<Longrightarrow> in_grid W H n \<Longrightarrow> adjacent p n \<Longrightarrow>
      visited (g n)"
    using dn unvisited_neighbours_empty [OF wf] by blast
  from p have b: "0 \<le> a" "a < W" "0 \<le> b" "b < H" by (simp_all add: in_grid_def)
  have row: "a < W \<longrightarrow> visited (g (a, 0))" using b(1)
  proof (induction a rule: int_ge_induct)
    case base
    show ?case using o by simp
  next
    case (step i)
    show ?case
    proof
      assume "i + 1 < W"
      with step b have "visited (g (i, 0))" "in_grid W H (i, 0)" "in_grid W H (i + 1, 0)"
        by (simp_all add: in_grid_def)
      then show "visited (g (i + 1, 0))"
        using nb [of "(i, 0)" "(i + 1, 0)"] by (simp add: adjacent_iff)
    qed
  qed
  have "b < H \<longrightarrow> visited (g (a, b))" using b(3)
  proof (induction b rule: int_ge_induct)
    case base
    show ?case using row b by simp
  next
    case (step i)
    show ?case
    proof
      assume "i + 1 < H"
      with step b have "visited (g (a, i))" "in_grid W H (a, i)" "in_grid W H (a, i + 1)"
        by (simp_all add: in_grid_def)
      then show "visited (g (a, i + 1))"
        using nb [of "(a, i)" "(a, i + 1)"] by (simp add: adjacent_iff)
    qed
  qed
  with b show ?thesis by simp
qed

section \<open>A selecting iteration grows the tree by one leaf\<close>

lemma visited_cells_select:
  assumes "in_grid W H n" "\<not> visited (g n)"
  shows "visited_cells W H (set_visited (RemoveWall g c n) n True) = insert n (visited_cells W H g)"
    and "n \<notin> visited_cells W H g"
  using assms by (auto simp: visited_cells_def)

lemma finite_visited_cells: "finite (visited_cells W H g)"
  using finite_in_grid [of W H] by (simp add: visited_cells_def)

lemma select_closed:
  assumes wf: "wf_cells W H g" and c: "in_grid W H c" and n: "in_grid W H n"
    and adj: "adjacent c n" and vc: "visited (g c)"
    and cl: "\<forall>p k. in_grid W H p \<and> \<not> visited (g p) \<and> k < 4 \<longrightarrow> walls (g p) ! k"
  shows "\<forall>p k. in_grid W H p \<and> \<not> visited (set_visited (RemoveWall g c n) n True p) \<and> k < 4 \<longrightarrow>
           walls (set_visited (RemoveWall g c n) n True p) ! k"
proof (intro allI impI, elim conjE)
  fix p and k :: nat
  assume p: "in_grid W H p" and u: "\<not> visited (set_visited (RemoveWall g c n) n True p)" and k: "k < 4"
  from adj obtain i where f: "facing c n = Some i" by (auto simp: adjacent_def)
  from u have pn: "p \<noteq> n" and up: "\<not> visited (g p)" by (auto split: if_splits)
  with vc have pc: "p \<noteq> c" by auto
  from cl p up k have "walls (g p) ! k" by blast
  with pn pc show "walls (set_visited (RemoveWall g c n) n True p) ! k"
    by (simp add: walls_RemoveWall [OF wf c n f p k])
qed

lemma select_tree:
  assumes wf: "wf_cells W H g" and c: "in_grid W H c" and n: "in_grid W H n"
    and adj: "adjacent c n" and vc: "visited (g c)" and un: "\<not> visited (g n)"
    and cl: "\<forall>p k. in_grid W H p \<and> \<not> visited (g p) \<and> k < 4 \<longrightarrow> walls (g p) ! k"
    and ord: "ord \<noteq> []" "distinct ord" "set ord = visited_cells W H g" "last ord = (0, 0)"
      "tree_order W H g ord"
  shows "n # ord \<noteq> [] \<and> distinct (n # ord) \<and>
         set (n # ord) = visited_cells W H (set_visited (RemoveWall g c n) n True) \<and>
         last (n # ord) = (0, 0) \<and>
         tree_order W H (set_visited (RemoveWall g c n) n True) (n # ord)"
proof -
  let ?g' = "set_visited (RemoveWall g c n) n True"
  note ps = passage_select [OF wf c n adj]
  from visited_cells_select(1) [where g = g and n = n and c = c, OF n un]
    visited_cells_select(2) [where g = g and n = n, OF n un] ord(3)
  have nn: "n \<notin> set ord" and s: "set (n # ord) = visited_cells W H ?g'" by auto
  from c vc ord(3) have cm: "c \<in> set ord" by (simp add: visited_cells_def)
  have "\<forall>p \<in> set ord. \<forall>q \<in> set ord. passage W H ?g' p q = passage W H g p q"
    using nn by (auto simp: ps)
  from tree_order_cong [OF this] ord(5) have t: "tree_order W H ?g' ord" by simp
  have no: "\<And>q. \<not> passage W H g n q"
    using passage_visited [OF cl] un by blast
  have "\<exists>!q. q \<in> set ord \<and> passage W H ?g' n q"
  proof (rule ex1I [of _ c])
    show "c \<in> set ord \<and> passage W H ?g' n c" using cm by (simp add: ps)
  next
    fix q assume "q \<in> set ord \<and> passage W H ?g' n q"
    with no nn cm show "q = c" by (auto simp: ps)
  qed
  with t nn s ord show ?thesis by simp
qed

lemma adjacent_in_all_pairs:
  assumes "in_grid W H c" "in_grid W H n" "adjacent c n"
  shows "((c, n) \<in> set (all_pairs W H) \<or> (n, c) \<in> set (all_pairs W H)) \<and>
         \<not> ((c, n) \<in> set (all_pairs W H) \<and> (n, c) \<in> set (all_pairs W H))"
proof -
  obtain a b where ab: "c = (a, b)" by (cases c)
  from assms(3) have "n = (a, b + 1) \<or> n = (a + 1, b) \<or> n = (a, b - 1) \<or> n = (a - 1, b)"
    unfolding ab adjacent_iff .
  with assms(1,2) show ?thesis
    unfolding set_all_pairs ab by auto
qed

lemma select_count:
  assumes wf: "wf_cells W H g" and c: "in_grid W H c" and n: "in_grid W H n"
    and adj: "adjacent c n" and un: "\<not> visited (g n)"
    and cl: "\<forall>p k. in_grid W H p \<and> \<not> visited (g p) \<and> k < 4 \<longrightarrow> walls (g p) ! k"
  shows "length (open_pairs W H (set_visited (RemoveWall g c n) n True)) =
         Suc (length (open_pairs W H g))"
proof -
  let ?g' = "set_visited (RemoveWall g c n) n True"
  let ?e = "if (c, n) \<in> set (all_pairs W H) then (c, n) else (n, c)"
  note ps = passage_select [OF wf c n adj]
  note ap = adjacent_in_all_pairs [OF c n adj]
  have no: "\<not> passage W H g c n" "\<not> passage W H g n c"
    using passage_visited [OF cl] un by blast+
  have e: "?e \<in> set (all_pairs W H)" using ap by auto
  have ne: "\<not> passage W H g (fst ?e) (snd ?e)" using no by simp
  have "\<forall>x \<in> set (all_pairs W H).
      passage W H ?g' (fst x) (snd x) = (passage W H g (fst x) (snd x) \<or> x = ?e)"
  proof
    fix x assume x: "x \<in> set (all_pairs W H)"
    have xe: "(fst x = c \<and> snd x = n) = (x = (c, n))" "(fst x = n \<and> snd x = c) = (x = (n, c))"
      by (simp_all add: prod_eq_iff)
    have "(fst x = c \<and> snd x = n \<or> fst x = n \<and> snd x = c) = (x = ?e)"
    proof (cases "(c, n) \<in> set (all_pairs W H)")
      case True
      with ap x have "x \<noteq> (n, c)" by blast
      with True show ?thesis unfolding xe by simp
    next
      case False
      with x have "x \<noteq> (c, n)" by blast
      with False show ?thesis unfolding xe by simp
    qed
    then show "passage W H ?g' (fst x) (snd x) = (passage W H g (fst x) (snd x) \<or> x = ?e)"
      unfolding ps by blast
  qed
  from filter_one_more [OF distinct_all_pairs e, of "\<lambda>pq. passage W H g (fst pq) (snd pq)"
      "\<lambda>pq. passage W H ?g' (fst pq) (snd pq)", OF ne this]
  show ?thesis by (simp add: open_pairs_def)
qed

lemma done_mono:
  assumes "wf_cells W H g" "wf_cells W H g'" "in_grid W H p"
    and "unvisited_neighbours W H g p = []" and "\<And>q. visited (g q) \<Longrightarrow> visited (g' q)"
  shows "unvisited_neighbours W H g' p = []"
  using assms unvisited_neighbours_empty [of W H g p] unvisited_neighbours_empty [of W H g' p]
  by blast

section \<open>The invariant of Generate\<close>

lemma tree_inv_iff:
  "tree_inv W H (m, c, r) \<longleftrightarrow>
     closed_unvisited W H (grid m) \<and> visit_tree W H (grid m) \<and>
     Suc (length (open_pairs W H (grid m))) = card (visited_cells W H (grid m)) \<and>
     visited (grid m c) \<and> (\<forall>p \<in> set (pathStack m). visited (grid m p)) \<and>
     (\<forall>p. p \<in> visited_cells W H (grid m) \<and> p \<notin> set (c # pathStack m) \<longrightarrow>
        unvisited_neighbours W H (grid m) p = []) \<and>
     ((pathStack m = [(0, 0)] \<and> c = (0, 0)) \<or> (\<exists>rest. pathStack m = rest @ [(0, 0), (0, 0)]) \<or>
      (pathStack m = [] \<and> unvisited_neighbours W H (grid m) c = [])) \<and>
     wall_symmetric W H (grid m)"
  by (simp add: tree_inv_def Let_def)

lemma tree_inv_select:
  assumes ok: "gen_ok W H (m, c, r)" and inv: "tree_inv W H (m, c, r)"
    and ne: "pathStack m \<noteq> []" and sel: "n \<in> set (unvisited_neighbours W H (grid m) c)"
  shows "tree_inv W H
     (m\<lparr>grid := set_visited (RemoveWall (grid m) c n) n True, pathStack := c # pathStack m\<rparr>, n, r')"
proof -
  let ?g = "grid m" and ?g' = "set_visited (RemoveWall (grid m) c n) n True"
  from ok have wf: "wf_cells W H ?g" and c: "in_grid W H c"
    and sg: "\<forall>p \<in> set (pathStack m). in_grid W H p"
    by (simp_all add: gen_ok_def)
  from unvisited_neighbours_mem [OF wf c sel]
  have n: "in_grid W H n" and un: "\<not> visited (?g n)" and adj: "adjacent c n" by simp_all
  from inv have cl: "closed_unvisited W H ?g" and vt: "visit_tree W H ?g"
    and cnt: "Suc (length (open_pairs W H ?g)) = card (visited_cells W H ?g)"
    and vc: "visited (?g c)" and vs: "\<forall>p \<in> set (pathStack m). visited (?g p)"
    and dn: "\<forall>p. p \<in> visited_cells W H ?g \<and> p \<notin> set (c # pathStack m) \<longrightarrow>
        unvisited_neighbours W H ?g p = []"
    and sh: "(pathStack m = [(0, 0)] \<and> c = (0, 0)) \<or> (\<exists>rest. pathStack m = rest @ [(0, 0), (0, 0)]) \<or>
      (pathStack m = [] \<and> unvisited_neighbours W H ?g c = [])"
    and sy: "wall_symmetric W H ?g"
    unfolding tree_inv_iff by blast+
  note cl' = cl [unfolded closed_unvisited_def]
  have wf': "wf_cells W H ?g'"
    by (intro wf_cells_set_visited wf_cells_RemoveWall wf)
  have 1: "closed_unvisited W H ?g'"
    unfolding closed_unvisited_def by (rule select_closed [OF wf c n adj vc cl'])
  from vt obtain ord where ord: "ord \<noteq> []" "distinct ord" "set ord = visited_cells W H ?g"
    "last ord = (0, 0)" "tree_order W H ?g ord"
    unfolding visit_tree_def by blast
  from select_tree [OF wf c n adj vc un cl' ord]
  have 2: "visit_tree W H ?g'" unfolding visit_tree_def by blast
  note vi = visited_cells_select(1) [where g = ?g and n = n and c = c, OF n un]
    and vn = visited_cells_select(2) [where g = ?g and n = n, OF n un]
  have "card (visited_cells W H ?g') = Suc (card (visited_cells W H ?g))"
    unfolding vi using vn finite_visited_cells by simp
  with cnt select_count [OF wf c n adj un cl']
  have 3: "Suc (length (open_pairs W H ?g')) = card (visited_cells W H ?g')" by simp
  have 4: "visited (?g' n)" "\<forall>p \<in> set (c # pathStack m). visited (?g' p)"
    using vc vs by simp_all
  have 5: "\<forall>p. p \<in> visited_cells W H ?g' \<and> p \<notin> set (n # c # pathStack m) \<longrightarrow>
      unvisited_neighbours W H ?g' p = []"
  proof (intro allI impI, elim conjE)
    fix p assume p: "p \<in> visited_cells W H ?g'" "p \<notin> set (n # c # pathStack m)"
    then have "p \<in> visited_cells W H ?g" "p \<notin> set (c # pathStack m)"
      unfolding vi by auto
    with dn have "unvisited_neighbours W H ?g p = []" by blast
    moreover from \<open>p \<in> visited_cells W H ?g\<close> have "in_grid W H p"
      by (simp add: visited_cells_def)
    ultimately have "unvisited_neighbours W H ?g p = []" "in_grid W H p" .
    then show "unvisited_neighbours W H ?g' p = []"
      by (intro done_mono [OF wf wf']) simp_all
  qed
  from sh ne have 6: "\<exists>rest. c # pathStack m = rest @ [(0, 0), (0, 0)]"
  proof (elim disjE)
    assume "pathStack m = [(0, 0)] \<and> c = (0, 0)"
    then have "c # pathStack m = [] @ [(0, 0), (0, 0)]" by simp
    then show ?thesis by blast
  next
    assume "\<exists>rest. pathStack m = rest @ [(0, 0), (0, 0)]"
    then obtain rest where "pathStack m = rest @ [(0, 0), (0, 0)]" by blast
    then have "c # pathStack m = (c # rest) @ [(0, 0), (0, 0)]" by simp
    then show ?thesis by blast
  qed simp
  from wall_symmetric_RemoveWall [OF wf c n adj sy]
  have 7: "wall_symmetric W H ?g'" by (simp add: wall_symmetric_def)
  from 1 2 3 4 5 6 7 show ?thesis unfolding tree_inv_iff by simp
qed

lemma tree_inv_pop:
  assumes ok: "gen_ok W H (m, c, r)" and inv: "tree_inv W H (m, c, r)"
    and ne: "pathStack m \<noteq> []" and pop: "unvisited_neighbours W H (grid m) c = []"
  shows "tree_inv W H (m\<lparr>pathStack := tl (pathStack m)\<rparr>, hd (pathStack m), r)"
proof -
  let ?g = "grid m"
  from ne obtain a as where st: "pathStack m = a # as" by (cases "pathStack m") auto
  from inv have cl: "closed_unvisited W H ?g" and vt: "visit_tree W H ?g"
    and cnt: "Suc (length (open_pairs W H ?g)) = card (visited_cells W H ?g)"
    and vc: "visited (?g c)" and vs: "\<forall>p \<in> set (pathStack m). visited (?g p)"
    and dn: "\<forall>p. p \<in> visited_cells W H ?g \<and> p \<notin> set (c # pathStack m) \<longrightarrow>
        unvisited_neighbours W H ?g p = []"
    and sh: "(pathStack m = [(0, 0)] \<and> c = (0, 0)) \<or> (\<exists>rest. pathStack m = rest @ [(0, 0), (0, 0)]) \<or>
      (pathStack m = [] \<and> unvisited_neighbours W H ?g c = [])"
    and sy: "wall_symmetric W H ?g"
    unfolding tree_inv_iff by blast+
  have 4: "visited (?g a)" "\<forall>p \<in> set as. visited (?g p)" using vs st by simp_all
  have 5: "\<forall>p. p \<in> visited_cells W H ?g \<and> p \<notin> set (a # as) \<longrightarrow> unvisited_neighbours W H ?g p = []"
    using dn pop st by (metis set_ConsD)
  from sh st have 6: "(as = [(0, 0)] \<and> a = (0, 0)) \<or> (\<exists>rest. as = rest @ [(0, 0), (0, 0)]) \<or>
      (as = [] \<and> unvisited_neighbours W H ?g a = [])"
  proof (elim disjE)
    assume "pathStack m = [(0, 0)] \<and> c = (0, 0)"
    with st pop show ?thesis by simp
  next
    assume "\<exists>rest. pathStack m = rest @ [(0, 0), (0, 0)]"
    then obtain rest where r: "a # as = rest @ [(0, 0), (0, 0)]" using st by auto
    show ?thesis
    proof (cases rest)
      case Nil
      with r show ?thesis by simp
    next
      case (Cons b bs)
      with r show ?thesis by simp
    qed
  qed simp
  from cl vt cnt 4 5 6 sy show ?thesis unfolding tree_inv_iff by (simp add: st)
qed

lemma tree_inv_step:
  assumes "gen_ok W H t" "tree_inv W H t" "pathStack (fst t) \<noteq> []"
  shows "tree_inv W H (gen_step W H t)"
proof -
  obtain m c r where t: "t = (m, c, r)" by (cases t)
  show ?thesis
  proof (cases rule: gen_step_cases [of W H m c r])
    case (select n)
    from tree_inv_select [OF assms(1,2) [unfolded t] _ select(1)] assms(3) t
    show ?thesis by (simp add: select(2))
  next
    case pop
    from tree_inv_pop [OF assms(1,2) [unfolded t] _ pop(1)] assms(3) t
    show ?thesis by (simp add: pop(2))
  qed
qed

lemma visited_Initialize: "in_grid W H p \<Longrightarrow> \<not> visited (grid (Initialize W H m) p)"
  by (simp add: grid_Initialize_in new_Cell_def)

lemma tree_inv_init:
  assumes W: "1 \<le> W" and H: "1 \<le> H" and e: "pathStack m = []"
  shows "tree_inv W H (gen_init (Initialize W H m) r)"
proof -
  let ?g = "set_visited (grid (Initialize W H m)) (0, 0) True"
  from W H have o: "in_grid W H (0, 0)" by (simp add: in_grid_def)
  have w: "\<And>p k. in_grid W H p \<Longrightarrow> k < 4 \<Longrightarrow> walls (?g p) ! k"
    by (simp add: walls_Initialize)
  have 1: "closed_unvisited W H ?g" unfolding closed_unvisited_def using w by blast
  have vc: "visited_cells W H ?g = {(0, 0)}"
    using o by (auto simp: visited_cells_def visited_Initialize)
  have 2: "visit_tree W H ?g"
    unfolding visit_tree_def by (rule exI [of _ "[(0, 0)]"]) (simp add: vc)
  have np: "\<And>p q. \<not> passage W H ?g p q"
    unfolding passage_iff using w facing_less by blast
  have 3: "Suc (length (open_pairs W H ?g)) = card (visited_cells W H ?g)"
    by (simp add: open_pairs_def np vc)
  have 7: "wall_symmetric W H ?g"
    using wall_symmetric_Initialize [of W H m] by (simp add: wall_symmetric_def)
  from 1 2 3 7 show ?thesis
    unfolding gen_init_def tree_inv_iff by (simp add: pathStack_Initialize e vc)
qed

lemma tree_inv_final:
  assumes ok: "gen_ok W H (m, c, r)" and inv: "tree_inv W H (m, c, r)" and e: "pathStack m = []"
  shows "spanning_tree W H (grid m)"
proof -
  let ?g = "grid m"
  from ok have wf: "wf_cells W H ?g" and c: "in_grid W H c" by (simp_all add: gen_ok_def)
  from inv e have cl: "closed_unvisited W H ?g" and vt: "visit_tree W H ?g"
    and cnt: "Suc (length (open_pairs W H ?g)) = card (visited_cells W H ?g)"
    and vc: "visited (?g c)"
    and dn: "\<forall>p. p \<in> visited_cells W H ?g \<and> p \<noteq> c \<longrightarrow> unvisited_neighbours W H ?g p = []"
    and dc: "unvisited_neighbours W H ?g c = []"
    unfolding tree_inv_iff by simp_all
  from vt obtain ord where ord: "ord \<noteq> []" "distinct ord" "set ord = visited_cells W H ?g"
    "last ord = (0, 0)" "tree_order W H ?g ord"
    unfolding visit_tree_def by blast
  from ord(1) have "last ord \<in> set ord" by simp
  with ord have o: "visited (?g (0, 0))" by (simp add: visited_cells_def)
  have "\<forall>p. in_grid W H p \<and> visited (?g p) \<longrightarrow> unvisited_neighbours W H ?g p = []"
    using dn dc by (auto simp: visited_cells_def)
  from all_visited [OF wf o this] have av: "\<And>p. in_grid W H p \<Longrightarrow> visited (?g p)"
    by (metis surj_pair)
  then have all: "visited_cells W H ?g = {p. in_grid W H p}"
    by (auto simp: visited_cells_def)
  have r: "\<forall>p. in_grid W H p \<longrightarrow> reachable W H ?g p"
    using tree_reachable [OF ord(5) ord(1) ord(4)] ord(3) all by simp
  from c have pos: "0 < W" "0 < H" by (auto simp: in_grid_def)
  then have "0 < W * H" by (rule mult_pos_pos)
  then have "1 \<le> W * H" by linarith
  moreover from pos have "nat W * nat H = nat (W * H)" by (simp add: nat_mult_distrib)
  ultimately have n: "length (open_pairs W H ?g) = nat (W * H - 1)"
    using cnt unfolding all card_in_grid by simp
  have a: "\<forall>cs. \<not> cycle W H ?g cs"
  proof (intro allI notI)
    fix cs assume cy: "cycle W H ?g cs"
    have "set cs \<subseteq> set ord"
    proof
      fix p assume "p \<in> set cs"
      then obtain i where "i < length cs" "cs ! i = p" by (auto simp: in_set_conv_nth)
      with cy have "passage W H ?g p (cs ! (Suc i mod length cs))" by (auto simp: cycle_def)
      then have "in_grid W H p" by (simp add: passage_in_grid)
      with all ord(3) show "p \<in> set ord" by simp
    qed
    from tree_acyclic [OF ord(5) ord(2) this] cy show False by simp
  qed
  from r n a show ?thesis by (simp add: spanning_tree_def)
qed

text \<open>C1: for every grid size with W and H at least 1, Generate after Initialize returns, and
  in the maze it returns a flood fill from \<open>(0, 0)\<close> over open passages reaches every cell,
  exactly \<open>W * H - 1\<close> pairs of adjacent cells have the wall between them open, and no cycle of
  passages exists; the two flags of every shared wall agree, so that an open wall is open from
  both sides. The stack is empty again afterwards.\<close>

theorem C1_spanning_tree:
  assumes "1 \<le> W" "1 \<le> H" "pathStack m = []"
  shows "\<exists>m' r'. Generate W H (Initialize W H m) r = Some (m', r') \<and>
           spanning_tree W H (grid m') \<and> wall_symmetric W H (grid m') \<and> pathStack m' = []"
proof -
  have "\<exists>m' c' r'. Generate W H (Initialize W H m) r = Some (m', r') \<and>
      gen_ok W H (m', c', r') \<and> tree_inv W H (m', c', r') \<and> pathStack m' = []"
    by (rule Generate_rule [OF assms tree_inv_init [OF assms] tree_inv_step])
  then obtain m' c' r' where g: "Generate W H (Initialize W H m) r = Some (m', r')"
    and ok: "gen_ok W H (m', c', r')" and inv: "tree_inv W H (m', c', r')" and e: "pathStack m' = []"
    by blast
  from inv have "wall_symmetric W H (grid m')" unfolding tree_inv_iff by blast
  with g e tree_inv_final [OF ok inv e] show ?thesis by blast
qed

theorem C1_spanning_tree_witness:
  "1 \<le> MAZE_WIDTH \<and> 1 \<le> MAZE_HEIGHT \<and> pathStack new_MazeGenerator = [] \<and>
   (\<exists>m' r'. Generate MAZE_WIDTH MAZE_HEIGHT (Initialize MAZE_WIDTH MAZE_HEIGHT new_MazeGenerator) rngB
        = Some (m', r') \<and>
      spanning_tree MAZE_WIDTH MAZE_HEIGHT (grid m') \<and>
      wall_symmetric MAZE_WIDTH MAZE_HEIGHT (grid m') \<and> pathStack m' = [])"
proof -
  have w: "1 \<le> MAZE_WIDTH" and h: "1 \<le> MAZE_HEIGHT" and e: "pathStack new_MazeGenerator = []"
    by (simp_all add: MAZE_WIDTH_def MAZE_HEIGHT_def new_MazeGenerator_def)
  from w h e C1_spanning_tree [OF w h e, of rngB] show ?thesis by blast
qed

text \<open>The predicate tells mazes apart: a grid with every wall closed is no spanning tree.\<close>

lemma closed_maze_not_spanning: "\<not> spanning_tree MAZE_WIDTH MAZE_HEIGHT closed_maze"
proof -
  have "\<And>p q. \<not> passage MAZE_WIDTH MAZE_HEIGHT closed_maze p q"
    unfolding passage_iff closed_maze_def using walls_Initialize facing_less by blast
  then have "length (open_pairs MAZE_WIDTH MAZE_HEIGHT closed_maze) = 0"
    by (simp add: open_pairs_def)
  then show ?thesis
    by (simp add: spanning_tree_def MAZE_WIDTH_def MAZE_HEIGHT_def)
qed

end
